theory Spec2Isabelle
  imports Complex_Main "HOL-Library.Product_Lexorder"
begin

section \<open>Python values used by \<^verbatim>\<open>main.py\<close>\<close>

text \<open>
  A Python \<^verbatim>\<open>str\<close> is a sequence of Unicode code points, so it is modelled as a
  list of natural numbers (\<open>length\<close> is Python's \<^verbatim>\<open>len\<close>). ASCII literals of the
  source are written with \<open>ascii\<close>; the Russian literals are given by their code
  points, with a transliteration beside them.
\<close>

type_synonym pystr = "nat list"

definition ascii :: "string \<Rightarrow> pystr" where
  "ascii s = map of_char s"

text \<open>
  Exceptions. Everything the PDF libraries raise is an \<^verbatim>\<open>Exception\<close> with a
  message (the subclass is never inspected by the program, only \<^verbatim>\<open>str(e)\<close> is);
  \<^verbatim>\<open>ZeroDivisionError\<close> is what Python's \<^verbatim>\<open>//\<close> raises on a zero divisor.
\<close>

datatype exn = ZeroDivisionError | Exception pystr

fun str_exn :: "exn \<Rightarrow> pystr" where
  "str_exn ZeroDivisionError = ascii ''integer division or modulo by zero''"
| "str_exn (Exception m) = m"

definition py_floordiv :: "int \<Rightarrow> int \<Rightarrow> exn + int" where
  "py_floordiv x y = (if y = 0 then Inl ZeroDivisionError else Inr (x div y))"

section \<open>The worker's signals and its running flag\<close>

text \<open>
  The five Qt signals of \<^verbatim>\<open>Worker\<close>: \<^verbatim>\<open>progress_updated(int)\<close>,
  \<^verbatim>\<open>status_updated(str)\<close>, \<^verbatim>\<open>result_ready(str)\<close>, \<^verbatim>\<open>error_occurred(str)\<close>
  and \<^verbatim>\<open>finished()\<close>.
\<close>

datatype notification =
  Progress int | Status pystr | Result pystr | Error pystr | Finished

text \<open>
  The worker's execution is recorded as a log of events: every \<^verbatim>\<open>emit\<close> in program
  order and, as a ghost event, every read of \<^verbatim>\<open>self._is_running\<close> (a checkpoint)
  with the value that was read.
\<close>

datatype event = Emit notification | Poll bool

record wstate =
  polls :: nat
  log :: "event list"

definition init_state :: wstate where
  "init_state = \<lparr>polls = 0, log = []\<rparr>"

definition emit :: "notification \<Rightarrow> wstate \<Rightarrow> wstate" where
  "emit n st = st\<lparr>log := log st @ [Emit n]\<rparr>"

text \<open>
  \<^verbatim>\<open>_is_running\<close> is set to \<^verbatim>\<open>True\<close> by \<^verbatim>\<open>__init__\<close> and only ever written again by
  \<^verbatim>\<open>stop\<close>, which clears it from the GUI thread. The worker observes the flag only
  at its reads, so a concurrent \<^verbatim>\<open>stop\<close> is fully described by the number of reads
  that still see \<^verbatim>\<open>True\<close>: \<open>None\<close> when \<^verbatim>\<open>stop\<close> is never called, \<open>Some k\<close> when the
  first \<open>k\<close> reads see \<^verbatim>\<open>True\<close> and every later read sees \<^verbatim>\<open>False\<close>.
\<close>

type_synonym cancel = "nat option"

definition flag_at :: "cancel \<Rightarrow> nat \<Rightarrow> bool" where
  "flag_at c k = (case c of None \<Rightarrow> True | Some n \<Rightarrow> k < n)"

definition is_running :: "cancel \<Rightarrow> wstate \<Rightarrow> bool \<times> wstate" where
  "is_running c st =
     (let v = flag_at c (polls st)
      in (v, st\<lparr>polls := Suc (polls st), log := log st @ [Poll v]\<rparr>))"

fun notifications :: "event list \<Rightarrow> notification list" where
  "notifications [] = []"
| "notifications (Emit n # es) = n # notifications es"
| "notifications (Poll v # es) = notifications es"

section \<open>The PDF libraries, as seen by the worker\<close>

text \<open>
  \<^verbatim>\<open>page.extract_text()\<close> of PyPDF2 returns text, returns \<^verbatim>\<open>None\<close>, or raises.
  \<^verbatim>\<open>pdfminer_extract(path)\<close> returns text or raises; \<^verbatim>\<open>PdfReader(path)\<close> raises or gives
  the pages.  A document is what the two libraries do on its path.
\<close>

datatype page = PageText pystr | PageNone | PageRaises exn

record pdf =
  primary :: "exn + pystr"
  reader :: "exn + page list"

section \<open>\<^verbatim>\<open>Worker.extract_text\<close>\<close>

text \<open>
  The body of the \<^verbatim>\<open>for i, page in enumerate(reader.pages)\<close> loop; \<open>n\<close> is
  \<^verbatim>\<open>len(reader.pages)\<close>, \<open>i\<close> the index of the first remaining page and \<open>text\<close> the
  accumulator.  \<^verbatim>\<open>page.extract_text() or ""\<close> is \<^verbatim>\<open>""\<close> when the page returns
  \<^verbatim>\<open>None\<close> or the empty string.
\<close>

fun page_text :: "page \<Rightarrow> exn + pystr" where
  "page_text (PageText t) = Inr (if t = [] then [] else t)"
| "page_text PageNone = Inr []"
| "page_text (PageRaises e) = Inl e"

fun pages_loop ::
  "cancel \<Rightarrow> nat \<Rightarrow> page list \<Rightarrow> nat \<Rightarrow> pystr \<Rightarrow> wstate \<Rightarrow> (exn + pystr) \<times> wstate" where
  "pages_loop c n [] i text st = (Inr text, st)"
| "pages_loop c n (p # ps) i text st =
     (let (running, st1) = is_running c st in
      if \<not> running then (Inr [], st1)
      else
        (case py_floordiv (int i * 40) (int n) of
           Inl e \<Rightarrow> (Inl e, st1)
         | Inr q \<Rightarrow>
            (let progress = 10 + q;
                 st2 = emit (Progress progress) st1
             in case page_text p of
                  Inl e \<Rightarrow> (Inl e, st2)
                | Inr t \<Rightarrow> pages_loop c n ps (Suc i) (text @ t) st2)))"

text \<open>The inner \<^verbatim>\<open>try\<close> block: the PyPDF2 strategy.\<close>

definition fallback :: "cancel \<Rightarrow> pdf \<Rightarrow> wstate \<Rightarrow> (exn + pystr) \<times> wstate" where
  "fallback c d st =
     (case reader d of
        Inl e \<Rightarrow> (Inl e, st)
      | Inr pages \<Rightarrow> pages_loop c (length pages) pages 0 [] st)"

text \<open>\<^verbatim>\<open>"Oshibka izvlecheniya teksta: "\<close> (error extracting text).\<close>

definition msg_extraction_error :: pystr where
  "msg_extraction_error =
     [1054, 1096, 1080, 1073, 1082, 1072, 32, 1080, 1079, 1074, 1083, 1077, 1095, 1077,
      1085, 1080, 1103, 32, 1090, 1077, 1082, 1089, 1090, 1072, 58, 32]"

definition extract_text :: "cancel \<Rightarrow> pdf \<Rightarrow> wstate \<Rightarrow> (exn + pystr) \<times> wstate" where
  "extract_text c d st =
     (case primary d of
        Inr text \<Rightarrow> (Inr text, st)
      | Inl e \<Rightarrow>
         (case fallback c d st of
            (Inr text, st') \<Rightarrow> (Inr text, st')
          | (Inl e2, st') \<Rightarrow> (Inl (Exception (msg_extraction_error @ str_exn e2)), st')))"

text \<open>
  Two readings of a page used in the statements below: the text a page contributes
  (\<^verbatim>\<open>page.extract_text() or ""\<close>), and whether \<^verbatim>\<open>page.extract_text()\<close> raises.
\<close>

fun page_str :: "page \<Rightarrow> pystr" where
  "page_str (PageText t) = t"
| "page_str PageNone = []"
| "page_str (PageRaises e) = []"

fun raises :: "page \<Rightarrow> bool" where
  "raises (PageRaises e) = True"
| "raises p = False"

section \<open>\<^verbatim>\<open>difflib.SequenceMatcher\<close>\<close>

text \<open>
  \<^verbatim>\<open>run\<close> calls \<^verbatim>\<open>difflib.Differ().compare(lines1, lines2)\<close> of Python's standard
  library.  The functions below follow \<^verbatim>\<open>Lib/difflib.py\<close> of CPython 3.11 method by
  method, for a matcher built as \<^verbatim>\<open>Differ()\<close> builds it: no junk function
  (\<^verbatim>\<open>isjunk=None\<close>, so \<^verbatim>\<open>bjunk\<close> stays empty) and \<^verbatim>\<open>autojunk=True\<close>.

  \<^verbatim>\<open>b2j\<close> is the dictionary \<^verbatim>\<open>__chain_b\<close> builds: the indices at which an element
  occurs in \<open>b\<close>, in increasing order, with the "popular" elements purged when
  \<open>b\<close> has 200 elements or more; a missing key reads as the empty list
  (\<^verbatim>\<open>b2j.get(a[i], nothing)\<close>).
\<close>

type_synonym match = "nat \<times> nat \<times> nat"

definition b2j :: "'a list \<Rightarrow> 'a \<Rightarrow> nat list" where
  "b2j b x =
     (let idxs = filter (\<lambda>j. b ! j = x) [0..<length b];
          n = length b
      in if n \<ge> 200 \<and> length idxs > n div 100 + 1 then [] else idxs)"

text \<open>\<^verbatim>\<open>isbjunk = self.bjunk.__contains__\<close>, and \<^verbatim>\<open>bjunk\<close> is the empty set.\<close>

definition isbjunk :: "'a \<Rightarrow> bool" where
  "isbjunk x = False"

text \<open>
  \<^verbatim>\<open>find_longest_match\<close>.  \<open>j_loop\<close> is the inner loop over \<^verbatim>\<open>b2j.get(a[i], nothing)\<close>
  (\<^verbatim>\<open>continue\<close> below \<open>blo\<close>, \<^verbatim>\<open>break\<close> from \<open>bhi\<close> on), \<open>i_loop\<close> the loop over
  \<^verbatim>\<open>range(alo, ahi)\<close>; \<^verbatim>\<open>j2len\<close> and \<^verbatim>\<open>newj2len\<close> are dictionaries from indices to
  lengths.  \<^verbatim>\<open>j2lenget(j-1, 0)\<close> at \<open>j = 0\<close> looks up the key \<open>-1\<close>, which is never
  present.  In \<open>i + 1 - k\<close> the subtraction never truncates (\<open>k \<le> i + 1 - alo\<close>, see
  \<open>j_loop_ok\<close>).  \<open>extend_lo\<close> and \<open>extend_hi\<close> are the four \<^verbatim>\<open>while\<close> loops that
  extend the match at its two ends, first over non-junk (\<open>junk = False\<close>), then over
  junk elements (\<open>junk = True\<close>).
\<close>

fun j_loop ::
  "(nat \<Rightarrow> nat option) \<Rightarrow> nat \<Rightarrow> nat \<Rightarrow> nat \<Rightarrow> nat list \<Rightarrow>
   (nat \<Rightarrow> nat option) \<times> match \<Rightarrow> (nat \<Rightarrow> nat option) \<times> match" where
  "j_loop j2len i blo bhi [] (newj2len, best) = (newj2len, best)"
| "j_loop j2len i blo bhi (j # js) (newj2len, (besti, bestj, bestsize)) =
     (if j < blo then j_loop j2len i blo bhi js (newj2len, (besti, bestj, bestsize))
      else if j \<ge> bhi then (newj2len, (besti, bestj, bestsize))
      else
        (let k = (case (if j = 0 then None else j2len (j - 1)) of None \<Rightarrow> 0 | Some v \<Rightarrow> v) + 1
         in if k > bestsize
            then j_loop j2len i blo bhi js (newj2len(j \<mapsto> k), (i + 1 - k, j + 1 - k, k))
            else j_loop j2len i blo bhi js (newj2len(j \<mapsto> k), (besti, bestj, bestsize))))"

fun i_loop ::
  "'a list \<Rightarrow> 'a list \<Rightarrow> nat \<Rightarrow> nat \<Rightarrow> nat list \<Rightarrow> (nat \<Rightarrow> nat option) \<times> match \<Rightarrow> match" where
  "i_loop a b blo bhi [] (j2len, best) = best"
| "i_loop a b blo bhi (i # is) (j2len, best) =
     i_loop a b blo bhi is (j_loop j2len i blo bhi (b2j b (a ! i)) (Map.empty, best))"

function extend_lo :: "bool \<Rightarrow> 'a list \<Rightarrow> 'a list \<Rightarrow> nat \<Rightarrow> nat \<Rightarrow> match \<Rightarrow> match" where
  "extend_lo junk a b alo blo (besti, bestj, bestsize) =
     (if besti > alo \<and> bestj > blo \<and> isbjunk (b ! (bestj - 1)) = junk
         \<and> a ! (besti - 1) = b ! (bestj - 1)
      then extend_lo junk a b alo blo (besti - 1, bestj - 1, bestsize + 1)
      else (besti, bestj, bestsize))"
  by pat_completeness auto
termination
  by (relation "measure (\<lambda>(junk, a, b, alo, blo, besti, bestj, bestsize). besti)") auto

declare extend_lo.simps [simp del]

function extend_hi :: "bool \<Rightarrow> 'a list \<Rightarrow> 'a list \<Rightarrow> nat \<Rightarrow> nat \<Rightarrow> match \<Rightarrow> match" where
  "extend_hi junk a b ahi bhi (besti, bestj, bestsize) =
     (if besti + bestsize < ahi \<and> bestj + bestsize < bhi \<and> isbjunk (b ! (bestj + bestsize)) = junk
         \<and> a ! (besti + bestsize) = b ! (bestj + bestsize)
      then extend_hi junk a b ahi bhi (besti, bestj, bestsize + 1)
      else (besti, bestj, bestsize))"
  by pat_completeness auto
termination
  by (relation "measure (\<lambda>(junk, a, b, ahi, bhi, besti, bestj, bestsize). ahi - (besti + bestsize))") auto

declare extend_hi.simps [simp del]

definition find_longest_match :: "'a list \<Rightarrow> 'a list \<Rightarrow> nat \<Rightarrow> nat \<Rightarrow> nat \<Rightarrow> nat \<Rightarrow> match" where
  "find_longest_match a b alo ahi blo bhi =
     (let m0 = i_loop a b blo bhi [alo..<ahi] (Map.empty, (alo, blo, 0));
          m1 = extend_lo False a b alo blo m0;
          m2 = extend_hi False a b ahi bhi m1;
          m3 = extend_lo True a b alo blo m2;
          m4 = extend_hi True a b ahi bhi m3
      in m4)"


text \<open>
  What \<^verbatim>\<open>find_longest_match\<close> guarantees, for any arguments: the block lies in the
  window and matches element by element.  The bounds are needed for the termination
  of \<^verbatim>\<open>get_matching_blocks\<close>.
\<close>

definition match_ok :: "'a list \<Rightarrow> 'a list \<Rightarrow> nat \<Rightarrow> nat \<Rightarrow> nat \<Rightarrow> nat \<Rightarrow> match \<Rightarrow> bool" where
  "match_ok a b alo blo ahi bhi m =
     (case m of (i, j, k) \<Rightarrow>
        alo \<le> i \<and> blo \<le> j \<and> (k = 0 \<longrightarrow> i = alo \<and> j = blo)
        \<and> (k \<noteq> 0 \<longrightarrow> i + k \<le> ahi \<and> j + k \<le> bhi)
        \<and> (\<forall>t<k. a ! (i + t) = b ! (j + t)))"

definition j2len_ok ::
  "'a list \<Rightarrow> 'a list \<Rightarrow> nat \<Rightarrow> nat \<Rightarrow> nat \<Rightarrow> nat \<Rightarrow> (nat \<Rightarrow> nat option) \<Rightarrow> bool" where
  "j2len_ok a b alo blo bhi i j2len =
     (\<forall>j v. j2len j = Some v \<longrightarrow>
        1 \<le> v \<and> alo + v \<le> i \<and> blo + v \<le> j + 1 \<and> j < bhi
        \<and> (\<forall>t<v. a ! (i - 1 - t) = b ! (j - t)))"

lemma b2j_elem: "j \<in> set (b2j b x) \<Longrightarrow> b ! j = x"
  by (auto simp: b2j_def Let_def split: if_splits)

lemma match_ok_mono:
  "match_ok a b alo blo ahi bhi m \<Longrightarrow> ahi \<le> ahi' \<Longrightarrow> match_ok a b alo blo ahi' bhi m"
  by (auto simp: match_ok_def)

lemma j_loop_ok:
  assumes "j2len_ok a b alo blo bhi i j2len"
    and "\<forall>j\<in>set js. b ! j = a ! i"
    and "j2len_ok a b alo blo bhi (Suc i) newj2len"
    and "match_ok a b alo blo (Suc i) bhi best"
    and "alo \<le> i"
  shows "j2len_ok a b alo blo bhi (Suc i) (fst (j_loop j2len i blo bhi js (newj2len, best)))
       \<and> match_ok a b alo blo (Suc i) bhi (snd (j_loop j2len i blo bhi js (newj2len, best)))"
  using assms
proof (induction js arbitrary: newj2len best)
  case Nil
  then show ?case by simp
next
  case (Cons j js)
  obtain besti bestj bestsize where best: "best = (besti, bestj, bestsize)"
    by (cases best) auto
  have js: "\<forall>j\<in>set js. b ! j = a ! i" and bj: "b ! j = a ! i" using Cons.prems(2) by auto
  show ?case
  proof (cases "j < blo")
    case True
    then show ?thesis
      using Cons.IH[OF Cons.prems(1) js Cons.prems(3) Cons.prems(4) Cons.prems(5)] best by simp
  next
    case False
    note jlo = this
    show ?thesis
    proof (cases "j \<ge> bhi")
      case True
      then show ?thesis using jlo best Cons.prems by simp
    next
      case False
      define k where "k = (case (if j = 0 then None else j2len (j - 1)) of None \<Rightarrow> 0 | Some v \<Rightarrow> v) + 1"
      have kprops: "1 \<le> k \<and> alo + k \<le> Suc i \<and> blo + k \<le> j + 1 \<and> (\<forall>t<k. a ! (i - t) = b ! (j - t))"
      proof (cases "j = 0 \<or> j2len (j - 1) = None")
        case True
        then have "k = 1" by (auto simp: k_def)
        then show ?thesis using jlo bj Cons.prems(5) by auto
      next
        case False
        then obtain v where v: "j2len (j - 1) = Some v" and j0: "j \<noteq> 0" by auto
        then have kv: "k = v + 1" by (simp add: k_def)
        from Cons.prems(1) v have vp: "1 \<le> v" "alo + v \<le> i" "blo + v \<le> j - 1 + 1"
          "\<forall>t<v. a ! (i - 1 - t) = b ! (j - 1 - t)"
          unfolding j2len_ok_def by blast+
        have "a ! (i - t) = b ! (j - t)" if "t < k" for t
        proof (cases t)
          case 0
          then show ?thesis using bj by simp
        next
          case (Suc t')
          then have "t' < v" using that kv by simp
          then have "a ! (i - 1 - t') = b ! (j - 1 - t')" using vp(4) by blast
          then show ?thesis using Suc by simp
        qed
        then show ?thesis using vp kv j0 by auto
      qed
      let ?new = "newj2len(j \<mapsto> k)"
      have new_ok: "j2len_ok a b alo blo bhi (Suc i) ?new"
        using Cons.prems(3) kprops False unfolding j2len_ok_def by auto
      show ?thesis
      proof (cases "k > bestsize")
        case True
        define bi where "bi = i + 1 - k"
        define bj where "bj = j + 1 - k"
        have bik: "bi + k = Suc i" "bj + k = Suc j"
          using kprops by (auto simp: bi_def bj_def)
        have f2: "a ! (bi + t) = b ! (bj + t)" if "t < k" for t
        proof -
          define u where "u = k - 1 - t"
          have u: "u < k" "i - u = bi + t" "j - u = bj + t"
            using that bik by (auto simp: u_def)
          from kprops u(1) have "a ! (i - u) = b ! (j - u)" by blast
          then show ?thesis using u by simp
        qed
        have "match_ok a b alo blo (Suc i) bhi (bi, bj, k)"
          unfolding match_ok_def using bik f2 kprops False by auto
        then have "match_ok a b alo blo (Suc i) bhi (i + 1 - k, j + 1 - k, k)"
          by (simp add: bi_def bj_def)
        have step: "j_loop j2len i blo bhi (j # js) (newj2len, best) =
            j_loop j2len i blo bhi js (?new, (i + 1 - k, j + 1 - k, k))"
          using True jlo False best by (simp add: k_def Let_def)
        from Cons.IH[OF Cons.prems(1) js new_ok \<open>match_ok a b alo blo (Suc i) bhi (i + 1 - k, j + 1 - k, k)\<close> Cons.prems(5)]
        show ?thesis unfolding step .
      next
        case nb: False
        have step: "j_loop j2len i blo bhi (j # js) (newj2len, best) =
            j_loop j2len i blo bhi js (?new, best)"
          using nb jlo False best by (simp add: k_def Let_def)
        from Cons.IH[OF Cons.prems(1) js new_ok Cons.prems(4) Cons.prems(5)]
        show ?thesis unfolding step .
      qed
    qed
  qed
qed

lemma i_loop_ok:
  assumes "j2len_ok a b alo blo bhi i j2len"
    and "match_ok a b alo blo i bhi best"
    and "alo \<le> i" and "i \<le> ahi"
  shows "match_ok a b alo blo ahi bhi (i_loop a b blo bhi [i..<ahi] (j2len, best))"
  using assms
proof (induction "ahi - i" arbitrary: i j2len best)
  case 0
  then show ?case by simp
next
  case (Suc n)
  then have lt: "i < ahi" by simp
  then have upt: "[i..<ahi] = i # [Suc i..<ahi]" by (simp add: upt_conv_Cons)
  let ?r = "j_loop j2len i blo bhi (b2j b (a ! i)) (Map.empty, best)"
  have e: "j2len_ok a b alo blo bhi (Suc i) Map.empty" by (simp add: j2len_ok_def)
  have m: "match_ok a b alo blo (Suc i) bhi best"
    using Suc.prems(2) by (rule match_ok_mono) simp
  have el: "\<forall>j\<in>set (b2j b (a ! i)). b ! j = a ! i" using b2j_elem by fast
  from j_loop_ok[OF Suc.prems(1) el e m Suc.prems(3)]
  have r: "j2len_ok a b alo blo bhi (Suc i) (fst ?r)" "match_ok a b alo blo (Suc i) bhi (snd ?r)"
    by auto
  have "match_ok a b alo blo ahi bhi (i_loop a b blo bhi [Suc i..<ahi] (fst ?r, snd ?r))"
    using Suc.hyps(1)[of "Suc i" "fst ?r" "snd ?r"] Suc.hyps(2) r Suc.prems(3) lt by simp
  then show ?case unfolding upt by simp
qed

lemma extend_lo_ok:
  "match_ok a b alo blo ahi bhi m \<Longrightarrow> match_ok a b alo blo ahi bhi (extend_lo junk a b alo blo m)"
proof (induction junk a b alo blo m rule: extend_lo.induct)
  case (1 junk a b alo blo besti bestj bestsize)
  show ?case
  proof (cases "besti > alo \<and> bestj > blo \<and> isbjunk (b ! (bestj - 1)) = junk
         \<and> a ! (besti - 1) = b ! (bestj - 1)")
    case True
    have "match_ok a b alo blo ahi bhi (besti - 1, bestj - 1, bestsize + 1)"
      unfolding match_ok_def
    proof (clarsimp, intro conjI allI impI)
      show "alo \<le> besti - Suc 0" "blo \<le> bestj - Suc 0" using True by auto
      have nz: "bestsize \<noteq> 0" using "1.prems" True by (auto simp: match_ok_def)
      then show "Suc (besti - Suc 0 + bestsize) \<le> ahi" "Suc (bestj - Suc 0 + bestsize) \<le> bhi"
        using "1.prems" True by (auto simp: match_ok_def)
      fix t assume t: "t < Suc bestsize"
      show "a ! (besti - Suc 0 + t) = b ! (bestj - Suc 0 + t)"
      proof (cases t)
        case 0
        then show ?thesis using True by simp
      next
        case (Suc t')
        then have "a ! (besti + t') = b ! (bestj + t')"
          using t "1.prems" by (auto simp: match_ok_def)
        then show ?thesis using Suc True by simp
      qed
    qed
    have step: "extend_lo junk a b alo blo (besti, bestj, bestsize) =
        extend_lo junk a b alo blo (besti - 1, bestj - 1, bestsize + 1)"
      using True by (subst extend_lo.simps) simp
    from "1.IH"[OF True \<open>match_ok a b alo blo ahi bhi (besti - 1, bestj - 1, bestsize + 1)\<close>]
    show ?thesis unfolding step .
  next
    case False
    have "extend_lo junk a b alo blo (besti, bestj, bestsize) = (besti, bestj, bestsize)"
      by (subst extend_lo.simps) (use False in auto)
    then show ?thesis using "1.prems" by simp
  qed
qed

lemma extend_hi_ok:
  "match_ok a b alo blo ahi bhi m \<Longrightarrow> match_ok a b alo blo ahi bhi (extend_hi junk a b ahi bhi m)"
proof (induction junk a b ahi bhi m rule: extend_hi.induct)
  case (1 junk a b ahi bhi besti bestj bestsize)
  show ?case
  proof (cases "besti + bestsize < ahi \<and> bestj + bestsize < bhi
         \<and> isbjunk (b ! (bestj + bestsize)) = junk
         \<and> a ! (besti + bestsize) = b ! (bestj + bestsize)")
    case True
    have "match_ok a b alo blo ahi bhi (besti, bestj, bestsize + 1)"
      using "1.prems" True by (auto simp: match_ok_def less_Suc_eq)
    have step: "extend_hi junk a b ahi bhi (besti, bestj, bestsize) =
        extend_hi junk a b ahi bhi (besti, bestj, bestsize + 1)"
      using True by (subst extend_hi.simps) simp
    from "1.IH"[OF True \<open>match_ok a b alo blo ahi bhi (besti, bestj, bestsize + 1)\<close>]
    show ?thesis unfolding step .
  next
    case False
    have "extend_hi junk a b ahi bhi (besti, bestj, bestsize) = (besti, bestj, bestsize)"
      by (subst extend_hi.simps) (use False in auto)
    then show ?thesis using "1.prems" by simp
  qed
qed

lemma find_longest_match_ok:
  "match_ok a b alo blo ahi bhi (find_longest_match a b alo ahi blo bhi)"
proof -
  have m0: "match_ok a b alo blo ahi bhi (i_loop a b blo bhi [alo..<ahi] (Map.empty, (alo, blo, 0)))"
  proof (cases "alo \<le> ahi")
    case True
    show ?thesis
      by (rule i_loop_ok) (use True in \<open>auto simp: j2len_ok_def match_ok_def\<close>)
  next
    case False
    then show ?thesis by (simp add: match_ok_def)
  qed
  show ?thesis
    unfolding find_longest_match_def Let_def
    by (intro extend_hi_ok extend_lo_ok m0)
qed

lemma find_longest_match_bounds:
  assumes "find_longest_match a b alo ahi blo bhi = (i, j, k)"
  shows "alo \<le> i" "blo \<le> j" "k \<noteq> 0 \<Longrightarrow> i + k \<le> ahi" "k \<noteq> 0 \<Longrightarrow> j + k \<le> bhi"
    "t < k \<Longrightarrow> a ! (i + t) = b ! (j + t)"
  using find_longest_match_ok[of a b alo blo ahi bhi] assms
  by (auto simp: match_ok_def)

text \<open>
  \<^verbatim>\<open>get_matching_blocks\<close>: \<open>mb_loop\<close> is the \<^verbatim>\<open>while queue\<close> loop (the head of the
  list is the element \<^verbatim>\<open>queue.pop()\<close> takes, so the block pushed last is in front),
  \<^verbatim>\<open>matching_blocks.sort()\<close> sorts the triples lexicographically, and \<open>collapse\<close> is
  the loop that merges adjacent blocks.
\<close>

type_synonym rect = "nat \<times> nat \<times> nat \<times> nat"

function mb_loop :: "'a list \<Rightarrow> 'a list \<Rightarrow> rect list \<Rightarrow> match list \<Rightarrow> match list" where
  "mb_loop a b [] matching_blocks = matching_blocks"
| "mb_loop a b ((alo, ahi, blo, bhi) # queue) matching_blocks =
     (case find_longest_match a b alo ahi blo bhi of
        (i, j, k) \<Rightarrow>
          if k \<noteq> 0 then
            (let q1 = (if alo < i \<and> blo < j then (alo, i, blo, j) # queue else queue);
                 q2 = (if i + k < ahi \<and> j + k < bhi then (i + k, ahi, j + k, bhi) # q1 else q1)
             in mb_loop a b q2 (matching_blocks @ [(i, j, k)]))
          else mb_loop a b queue matching_blocks)"
  by pat_completeness auto
termination
proof (relation "measure (\<lambda>(a, b, queue, blocks).
          sum_list (map (\<lambda>(alo, ahi, blo, bhi). 2 * (ahi - alo) + 1) queue))", goal_cases)
  case 1
  then show ?case by simp
next
  case (2 a b alo ahi blo bhi queue matching_blocks x1 x2 x1a x2a xa xb)
  then have f: "find_longest_match a b alo ahi blo bhi = (x1, x1a, x2a)" by simp
  have k: "x2a \<noteq> 0" using 2 by simp
  note bd = find_longest_match_bounds(1,3)[OF f]
  show ?case using 2 bd(1) bd(2)[OF k] k by (auto simp: Let_def)
next
  case (3 a b alo ahi blo bhi queue matching_blocks x1 x2 x1a x2a)
  then show ?case by simp
qed

declare mb_loop.simps [simp del]

fun collapse :: "match list \<Rightarrow> match \<Rightarrow> match list \<Rightarrow> match list" where
  "collapse [] (i1, j1, k1) non_adjacent =
     (if k1 \<noteq> 0 then non_adjacent @ [(i1, j1, k1)] else non_adjacent)"
| "collapse ((i2, j2, k2) # rest) (i1, j1, k1) non_adjacent =
     (if i1 + k1 = i2 \<and> j1 + k1 = j2 then collapse rest (i1, j1, k1 + k2) non_adjacent
      else collapse rest (i2, j2, k2)
             (if k1 \<noteq> 0 then non_adjacent @ [(i1, j1, k1)] else non_adjacent))"

definition get_matching_blocks :: "'a list \<Rightarrow> 'a list \<Rightarrow> match list" where
  "get_matching_blocks a b =
     (let la = length a; lb = length b;
          matching_blocks = sort (mb_loop a b [(0, la, 0, lb)] []);
          non_adjacent = collapse matching_blocks (0, 0, 0) []
      in non_adjacent @ [(la, lb, 0)])"

datatype tag = Replace | Delete | Insert | Equal

type_synonym opcode = "tag \<times> nat \<times> nat \<times> nat \<times> nat"

fun opcodes_loop :: "match list \<Rightarrow> nat \<Rightarrow> nat \<Rightarrow> opcode list \<Rightarrow> opcode list" where
  "opcodes_loop [] i j answer = answer"
| "opcodes_loop ((ai, bj, sz) # rest) i j answer =
     (let answer1 =
            (if i < ai \<and> j < bj then answer @ [(Replace, i, ai, j, bj)]
             else if i < ai then answer @ [(Delete, i, ai, j, bj)]
             else if j < bj then answer @ [(Insert, i, ai, j, bj)]
             else answer);
          answer2 =
            (if sz \<noteq> 0 then answer1 @ [(Equal, ai, ai + sz, bj, bj + sz)] else answer1)
      in opcodes_loop rest (ai + sz) (bj + sz) answer2)"

definition get_opcodes :: "'a list \<Rightarrow> 'a list \<Rightarrow> opcode list" where
  "get_opcodes a b = opcodes_loop (get_matching_blocks a b) 0 0 []"

text \<open>
  The three similarity ratios.  Python computes \<^verbatim>\<open>2.0 * matches / length\<close> in floating
  point and compares the quotients; here they are exact rationals.  The comparisons
  agree as long as the compared lines are shorter than some \<open>10\<^sup>7\<close> characters (two
  different quotients of such integers are different doubles, and \<^verbatim>\<open>0.74\<close>,
  \<^verbatim>\<open>0.75\<close> are the doubles nearest to \<open>74/100\<close> and \<open>75/100\<close>).
\<close>

definition calculate_ratio :: "nat \<Rightarrow> nat \<Rightarrow> rat" where
  "calculate_ratio matches len = (if len \<noteq> 0 then 2 * of_nat matches / of_nat len else 1)"

definition ratio :: "'a list \<Rightarrow> 'a list \<Rightarrow> rat" where
  "ratio a b =
     calculate_ratio (sum_list (map (\<lambda>(i, j, k). k) (get_matching_blocks a b)))
       (length a + length b)"

fun quick_loop :: "'a list \<Rightarrow> 'a list \<Rightarrow> ('a \<Rightarrow> int option) \<Rightarrow> nat \<Rightarrow> nat" where
  "quick_loop b [] avail matches = matches"
| "quick_loop b (elt # rest) avail matches =
     (let numb = (case avail elt of Some v \<Rightarrow> v | None \<Rightarrow> int (count_list b elt))
      in quick_loop b rest (avail(elt \<mapsto> numb - 1))
           (if numb > 0 then matches + 1 else matches))"

definition quick_ratio :: "'a list \<Rightarrow> 'a list \<Rightarrow> rat" where
  "quick_ratio a b = calculate_ratio (quick_loop b a Map.empty 0) (length a + length b)"

definition real_quick_ratio :: "'a list \<Rightarrow> 'a list \<Rightarrow> rat" where
  "real_quick_ratio a b = calculate_ratio (min (length a) (length b)) (length a + length b)"


section \<open>\<^verbatim>\<open>difflib.Differ\<close>\<close>

definition dump :: "nat \<Rightarrow> pystr list \<Rightarrow> nat \<Rightarrow> nat \<Rightarrow> pystr list" where
  "dump tg x lo hi = map (\<lambda>i. [tg, 32] @ x ! i) [lo..<hi]"

definition plain_replace ::
  "pystr list \<Rightarrow> nat \<Rightarrow> nat \<Rightarrow> pystr list \<Rightarrow> nat \<Rightarrow> nat \<Rightarrow> pystr list" where
  "plain_replace a alo ahi b blo bhi =
     (if bhi - blo < ahi - alo
      then dump 43 b blo bhi @ dump 45 a alo ahi
      else dump 45 a alo ahi @ dump 43 b blo bhi)"

text \<open>
  \<^verbatim>\<open>_fancy_replace\<close>: the search for the synch pair is the nested loop \<open>search_j\<close>
  (over \<^verbatim>\<open>range(blo, bhi)\<close>) and \<open>search_i\<close> (over \<^verbatim>\<open>range(alo, ahi)\<close>); its state is
  \<^verbatim>\<open>best_ratio\<close>, \<^verbatim>\<open>(best_i, best_j)\<close> once assigned, and \<^verbatim>\<open>(eqi, eqj)\<close>.
\<close>

type_synonym search_state = "rat \<times> (nat \<times> nat) option \<times> (nat \<times> nat) option"

fun search_i :: "pystr list \<Rightarrow> pystr \<Rightarrow> nat \<Rightarrow> nat list \<Rightarrow> search_state \<Rightarrow> search_state" where
  "search_i a bj j [] s = s"
| "search_i a bj j (i # is) (best_ratio, best, eq) =
     (let ai = a ! i in
      if ai = bj
      then search_i a bj j is (best_ratio, best, (if eq = None then Some (i, j) else eq))
      else if real_quick_ratio ai bj > best_ratio \<and> quick_ratio ai bj > best_ratio
              \<and> ratio ai bj > best_ratio
           then search_i a bj j is (ratio ai bj, Some (i, j), eq)
           else search_i a bj j is (best_ratio, best, eq))"

fun search_j ::
  "pystr list \<Rightarrow> nat \<Rightarrow> nat \<Rightarrow> pystr list \<Rightarrow> nat list \<Rightarrow> search_state \<Rightarrow> search_state" where
  "search_j a alo ahi b [] s = s"
| "search_j a alo ahi b (j # js) s =
     search_j a alo ahi b js (search_i a (b ! j) j [alo..<ahi] s)"

fun tags_loop :: "opcode list \<Rightarrow> pystr \<times> pystr \<Rightarrow> pystr \<times> pystr" where
  "tags_loop [] (atags, btags) = (atags, btags)"
| "tags_loop ((tg, ai1, ai2, bj1, bj2) # rest) (atags, btags) =
     (let la = ai2 - ai1; lb = bj2 - bj1 in
      case tg of
        Replace \<Rightarrow> tags_loop rest (atags @ replicate la 94, btags @ replicate lb 94)
      | Delete \<Rightarrow> tags_loop rest (atags @ replicate la 45, btags)
      | Insert \<Rightarrow> tags_loop rest (atags, btags @ replicate lb 43)
      | Equal \<Rightarrow> tags_loop rest (atags @ replicate la 32, btags @ replicate lb 32))"

text \<open>
  \<^verbatim>\<open>str.isspace\<close> of one character and \<^verbatim>\<open>str.rstrip()\<close>: the code points Python 3.11
  counts as whitespace.
\<close>

definition isspace :: "nat \<Rightarrow> bool" where
  "isspace c \<longleftrightarrow>
     c \<in> {9, 10, 11, 12, 13, 28, 29, 30, 31, 32, 133, 160, 5760, 8192, 8193, 8194, 8195,
          8196, 8197, 8198, 8199, 8200, 8201, 8202, 8232, 8233, 8239, 8287, 12288}"

definition keep_original_ws :: "pystr \<Rightarrow> pystr \<Rightarrow> pystr" where
  "keep_original_ws s tag_s =
     map (\<lambda>(c, tag_c). if tag_c = 32 \<and> isspace c then c else tag_c) (zip s tag_s)"

definition rstrip :: "pystr \<Rightarrow> pystr" where
  "rstrip s = rev (dropWhile isspace (rev s))"

definition qformat :: "pystr \<Rightarrow> pystr \<Rightarrow> pystr \<Rightarrow> pystr \<Rightarrow> pystr list" where
  "qformat aline bline atags btags =
     (let atags' = rstrip (keep_original_ws aline atags);
          btags' = rstrip (keep_original_ws bline btags)
      in [[45, 32] @ aline]
         @ (if atags' \<noteq> [] then [[63, 32] @ atags' @ [10]] else [])
         @ [[43, 32] @ bline]
         @ (if btags' \<noteq> [] then [[63, 32] @ btags' @ [10]] else []))"

text \<open>
  The synch pair found by the search lies in the block: needed for the termination of
  \<^verbatim>\<open>_fancy_replace\<close>.  When no pair was assigned, \<^verbatim>\<open>best_ratio\<close> is still below the
  cutoff, so the branch \<open>best = None\<close> of \<open>fancy_replace\<close> below (where Python would
  read an unassigned \<^verbatim>\<open>best_i\<close>) is never taken.
\<close>

definition in_block :: "nat \<Rightarrow> nat \<Rightarrow> nat \<Rightarrow> nat \<Rightarrow> (nat \<times> nat) option \<Rightarrow> bool" where
  "in_block alo ahi blo bhi p =
     (case p of None \<Rightarrow> True | Some (i, j) \<Rightarrow> alo \<le> i \<and> i < ahi \<and> blo \<le> j \<and> j < bhi)"

definition search_ok :: "nat \<Rightarrow> nat \<Rightarrow> nat \<Rightarrow> nat \<Rightarrow> search_state \<Rightarrow> bool" where
  "search_ok alo ahi blo bhi s =
     (case s of (best_ratio, best, eq) \<Rightarrow>
        in_block alo ahi blo bhi best \<and> in_block alo ahi blo bhi eq
        \<and> (best = None \<longrightarrow> best_ratio < 75 / 100))"

lemma search_i_ok:
  assumes "search_ok alo ahi blo bhi s" and "\<forall>i\<in>set is. alo \<le> i \<and> i < ahi"
    and "blo \<le> j" and "j < bhi"
  shows "search_ok alo ahi blo bhi (search_i a bj j is s)"
  using assms
proof (induction "is" arbitrary: s)
  case Nil
  then show ?case by simp
next
  case (Cons i "is")
  obtain best_ratio best eq where s: "s = (best_ratio, best, eq)" by (cases s) auto
  have i: "alo \<le> i" "i < ahi" and rest: "\<forall>i\<in>set is. alo \<le> i \<and> i < ahi"
    using Cons.prems(2) by auto
  have 1: "search_ok alo ahi blo bhi (best_ratio, best, (if eq = None then Some (i, j) else eq))"
    using Cons.prems(1,3,4) i by (auto simp: s search_ok_def in_block_def)
  have 2: "search_ok alo ahi blo bhi (r, Some (i, j), eq)" for r
    using Cons.prems(1,3,4) i by (auto simp: s search_ok_def in_block_def)
  show ?case
    unfolding s
    using Cons.IH[OF 1 rest Cons.prems(3,4)] Cons.IH[OF 2 rest Cons.prems(3,4)]
      Cons.IH[OF Cons.prems(1)[unfolded s] rest Cons.prems(3,4)]
    by (simp add: Let_def)
qed

lemma search_j_ok:
  assumes "search_ok alo ahi blo bhi s" and "\<forall>j\<in>set js. blo \<le> j \<and> j < bhi"
  shows "search_ok alo ahi blo bhi (search_j a alo ahi b js s)"
  using assms
proof (induction js arbitrary: s)
  case Nil
  then show ?case by simp
next
  case (Cons j js)
  have "search_ok alo ahi blo bhi (search_i a (b ! j) j [alo..<ahi] s)"
    by (rule search_i_ok) (use Cons.prems in auto)
  then show ?case using Cons by simp
qed

lemma search_result:
  assumes "search_j a alo ahi b [blo..<bhi] (74 / 100, None, None) = (best_ratio, best, eq)"
  shows "in_block alo ahi blo bhi best" "in_block alo ahi blo bhi eq"
    "best = None \<Longrightarrow> best_ratio < 75 / 100"
proof -
  have "search_ok alo ahi blo bhi (search_j a alo ahi b [blo..<bhi] (74 / 100, None, None))"
    by (rule search_j_ok) (auto simp: search_ok_def in_block_def)
  then show "in_block alo ahi blo bhi best" "in_block alo ahi blo bhi eq"
    "best = None \<Longrightarrow> best_ratio < 75 / 100"
    unfolding assms by (auto simp: search_ok_def)
qed

function fancy_replace ::
    "pystr list \<Rightarrow> nat \<Rightarrow> nat \<Rightarrow> pystr list \<Rightarrow> nat \<Rightarrow> nat \<Rightarrow> pystr list"
  and fancy_helper ::
    "pystr list \<Rightarrow> nat \<Rightarrow> nat \<Rightarrow> pystr list \<Rightarrow> nat \<Rightarrow> nat \<Rightarrow> pystr list" where
  "fancy_replace a alo ahi b blo bhi =
     (case search_j a alo ahi b [blo..<bhi] (74 / 100, None, None) of
        (best_ratio, best, eq) \<Rightarrow>
          if best_ratio < 75 / 100 then
            (case eq of
               None \<Rightarrow> plain_replace a alo ahi b blo bhi
             | Some (best_i, best_j) \<Rightarrow>
                 fancy_helper a alo best_i b blo best_j
                 @ [[32, 32] @ a ! best_i]
                 @ fancy_helper a (best_i + 1) ahi b (best_j + 1) bhi)
          else
            (case best of
               None \<Rightarrow> []
             | Some (best_i, best_j) \<Rightarrow>
                 fancy_helper a alo best_i b blo best_j
                 @ (let aelt = a ! best_i; belt = b ! best_j;
                        (atags, btags) = tags_loop (get_opcodes aelt belt) ([], [])
                    in qformat aelt belt atags btags)
                 @ fancy_helper a (best_i + 1) ahi b (best_j + 1) bhi))"
| "fancy_helper a alo ahi b blo bhi =
     (if alo < ahi then
        (if blo < bhi then fancy_replace a alo ahi b blo bhi
         else dump 45 a alo ahi)
      else if blo < bhi then dump 43 b blo bhi
      else [])"
  by pat_completeness auto
termination
proof (relation "measure (\<lambda>x. case x of
          Inl (a, alo, ahi, b, blo, bhi) \<Rightarrow> 2 * (ahi - alo)
        | Inr (a, alo, ahi, b, blo, bhi) \<Rightarrow> 2 * (ahi - alo) + 1)", goal_cases)
  case 1
  then show ?case by simp
next
  case (2 a alo ahi b blo bhi x y x1 x2 x2a xa ya)
  then have "search_j a alo ahi b [blo..<bhi] (74 / 100, None, None) = (x, x1, Some (xa, ya))"
    by simp
  from search_result(2)[OF this] have "alo \<le> xa \<and> xa < ahi" by (simp add: in_block_def)
  then show ?case by auto
next
  case (3 a alo ahi b blo bhi x y x1 x2 x2a xa ya)
  then have "search_j a alo ahi b [blo..<bhi] (74 / 100, None, None) = (x, x1, Some (xa, ya))"
    by simp
  from search_result(2)[OF this] have "alo \<le> xa \<and> xa < ahi" by (simp add: in_block_def)
  then show ?case by auto
next
  case (4 a alo ahi b blo bhi x y x1 x2 x2a xa ya)
  then have "search_j a alo ahi b [blo..<bhi] (74 / 100, None, None) = (x, Some (xa, ya), x2)"
    by simp
  from search_result(1)[OF this] have "alo \<le> xa \<and> xa < ahi" by (simp add: in_block_def)
  then show ?case by auto
next
  case (5 a alo ahi b blo bhi x y x1 x2 x2a xa ya)
  then have "search_j a alo ahi b [blo..<bhi] (74 / 100, None, None) = (x, Some (xa, ya), x2)"
    by simp
  from search_result(1)[OF this] have "alo \<le> xa \<and> xa < ahi" by (simp add: in_block_def)
  then show ?case by auto
next
  case (6 a alo ahi b blo bhi)
  then show ?case by simp
qed

declare fancy_replace.simps [simp del]
declare fancy_helper.simps [simp del]

fun compare_op :: "pystr list \<Rightarrow> pystr list \<Rightarrow> opcode \<Rightarrow> pystr list" where
  "compare_op a b (tg, alo, ahi, blo, bhi) =
     (case tg of
        Replace \<Rightarrow> fancy_replace a alo ahi b blo bhi
      | Delete \<Rightarrow> dump 45 a alo ahi
      | Insert \<Rightarrow> dump 43 b blo bhi
      | Equal \<Rightarrow> dump 32 a alo ahi)"

definition compare :: "pystr list \<Rightarrow> pystr list \<Rightarrow> pystr list" where
  "compare a b = concat (map (compare_op a b) (get_opcodes a b))"

section \<open>\<^verbatim>\<open>Worker.run\<close>\<close>

text \<open>
  \<^verbatim>\<open>str.splitlines()\<close>: the line boundaries of Python 3.11, \<^verbatim>\<open>\r\n\<close> counting once;
  \<^verbatim>\<open>str.startswith\<close>, \<^verbatim>\<open>sep.join\<close> and \<^verbatim>\<open>str\<close> of a non-negative integer.
\<close>

definition is_linebreak :: "nat \<Rightarrow> bool" where
  "is_linebreak c \<longleftrightarrow> c \<in> {10, 11, 12, 13, 28, 29, 30, 133, 8232, 8233}"

fun splitlines_from :: "pystr \<Rightarrow> pystr \<Rightarrow> pystr list" where
  "splitlines_from cur [] = (if cur = [] then [] else [cur])"
| "splitlines_from cur (c # cs) =
     (if c = 13 \<and> cs \<noteq> [] \<and> hd cs = 10 then cur # splitlines_from [] (tl cs)
      else if is_linebreak c then cur # splitlines_from [] cs
      else splitlines_from (cur @ [c]) cs)"

definition splitlines :: "pystr \<Rightarrow> pystr list" where
  "splitlines s = splitlines_from [] s"

definition startswith :: "pystr \<Rightarrow> pystr \<Rightarrow> bool" where
  "startswith s p \<longleftrightarrow> take (length p) s = p"

fun join :: "pystr \<Rightarrow> pystr list \<Rightarrow> pystr" where
  "join sep [] = []"
| "join sep [x] = x"
| "join sep (x # y # zs) = x @ sep @ join sep (y # zs)"

fun str_nat :: "nat \<Rightarrow> pystr" where
  "str_nat n = (if n < 10 then [48 + n] else str_nat (n div 10) @ [48 + n mod 10])"

declare str_nat.simps [simp del]

text \<open>
  The formatting loop of \<^verbatim>\<open>run\<close> over the lines of the diff; \<open>None\<close> is the
  \<^verbatim>\<open>return\<close> taken when the flag is read as cleared.
\<close>

definition span :: "string \<Rightarrow> pystr \<Rightarrow> pystr" where
  "span colour line =
     ascii ''<span style='' @ [34] @ ascii ''color:'' @ ascii colour @ [34] @ ascii ''>''
     @ line @ ascii ''</span>''"

fun format_loop ::
  "cancel \<Rightarrow> pystr list \<Rightarrow> pystr list \<Rightarrow> nat \<Rightarrow> nat \<Rightarrow> wstate \<Rightarrow>
   (pystr list \<times> nat \<times> nat) option \<times> wstate" where
  "format_loop c [] result added removed st = (Some (result, added, removed), st)"
| "format_loop c (line # rest) result added removed st =
     (let (running, st1) = is_running c st in
      if \<not> running then (None, st1)
      else if startswith line (ascii ''- '')
        then format_loop c rest (result @ [span ''red'' line]) added (removed + 1) st1
      else if startswith line (ascii ''+ '')
        then format_loop c rest (result @ [span ''green'' line]) (added + 1) removed st1
      else if \<not> startswith line (ascii ''? '')
        then format_loop c rest (result @ [span ''gray'' line]) added removed st1
      else format_loop c rest result added removed st1)"

text \<open>
  The literals of \<^verbatim>\<open>run\<close>: \<^verbatim>\<open>"Izvlechenie teksta iz "\<close> (extracting text from),
  \<^verbatim>\<open>"Sravnenie tekstov..."\<close> (comparing texts), \<^verbatim>\<open>"Formatirovanie rezultatov..."\<close>
  (formatting results), the summary \<^verbatim>\<open>"\n<b>Itogo: {added} dobavlenij, {removed} udalenij</b>"\<close>
  (total: additions, deletions), \<^verbatim>\<open>"Sravnenie zaversheno. {n1} k {n2} strok."\<close>
  (comparison finished, n1 to n2 lines) and \<^verbatim>\<open>"Oshibka: "\<close> (error).
\<close>

definition msg_extracting :: pystr where
  "msg_extracting =
     [1048, 1079, 1074, 1083, 1077, 1095, 1077, 1085, 1080, 1077, 32, 1090, 1077, 1082,
      1089, 1090, 1072, 32, 1080, 1079, 32]"

definition msg_comparing :: pystr where
  "msg_comparing =
     [1057, 1088, 1072, 1074, 1085, 1077, 1085, 1080, 1077, 32, 1090, 1077, 1082, 1089,
      1090, 1086, 1074, 46, 46, 46]"

definition msg_formatting :: pystr where
  "msg_formatting =
     [1060, 1086, 1088, 1084, 1072, 1090, 1080, 1088, 1086, 1074, 1072, 1085, 1080, 1077,
      32, 1088, 1077, 1079, 1091, 1083, 1100, 1090, 1072, 1090, 1086, 1074, 46, 46, 46]"

definition summary_line :: "nat \<Rightarrow> nat \<Rightarrow> pystr" where
  "summary_line added removed =
     [10, 60, 98, 62, 1048, 1090, 1086, 1075, 1086, 58, 32] @ str_nat added
     @ [32, 1076, 1086, 1073, 1072, 1074, 1083, 1077, 1085, 1080, 1081, 44, 32] @ str_nat removed
     @ [32, 1091, 1076, 1072, 1083, 1077, 1085, 1080, 1081, 60, 47, 98, 62]"

definition msg_done :: "nat \<Rightarrow> nat \<Rightarrow> pystr" where
  "msg_done n1 n2 =
     [1057, 1088, 1072, 1074, 1085, 1077, 1085, 1080, 1077, 32, 1079, 1072, 1074, 1077,
      1088, 1096, 1077, 1085, 1086, 46, 32] @ str_nat n1 @ [32, 1082, 32] @ str_nat n2
     @ [32, 1089, 1090, 1088, 1086, 1082, 46]"

definition msg_error :: pystr where
  "msg_error = [1054, 1096, 1080, 1073, 1082, 1072, 58, 32]"

text \<open>
  The worker holds the two paths.  The environment gives \<^verbatim>\<open>Path(p).name\<close> and, for
  each path, what the PDF libraries do on it.
\<close>

record worker =
  file1 :: pystr
  file2 :: pystr

record env =
  name_of :: "pystr \<Rightarrow> pystr"
  open_pdf :: "pystr \<Rightarrow> pdf"

definition status_extracting :: "env \<Rightarrow> pystr \<Rightarrow> notification" where
  "status_extracting ev path = Status (msg_extracting @ name_of ev path @ ascii ''...'')"

text \<open>
  \<^verbatim>\<open>run\<close>: \<open>compare_and_format\<close> is its second half (from \<^verbatim>\<open>progress_updated.emit(60)\<close>
  on), \<open>run_body\<close> the \<^verbatim>\<open>try\<close> block, whose result is \<open>Inl e\<close> when an exception
  reaches the \<^verbatim>\<open>except\<close> clause, and \<open>run\<close> adds the \<^verbatim>\<open>except\<close> and \<^verbatim>\<open>finally\<close>
  clauses.  It returns the final state, whose log is the execution.
\<close>

definition compare_and_format ::
  "cancel \<Rightarrow> pystr \<Rightarrow> pystr \<Rightarrow> wstate \<Rightarrow> (exn + unit) \<times> wstate" where
  "compare_and_format c text1 text2 st =
     (let st1 = emit (Progress 60) st;
          st2 = emit (Status msg_comparing) st1;
          lines1 = splitlines text1;
          lines2 = splitlines text2;
          diff = compare lines1 lines2;
          st3 = emit (Progress 80) st2;
          st4 = emit (Status msg_formatting) st3
      in case format_loop c diff [] 0 0 st4 of
           (None, st5) \<Rightarrow> (Inr (), st5)
         | (Some (result, added, removed), st5) \<Rightarrow>
             (let result' = result @ [summary_line added removed];
                  st6 = emit (Result (join (ascii ''<br>'') result')) st5;
                  st7 = emit (Progress 100) st6;
                  st8 = emit (Status (msg_done (length lines1) (length lines2))) st7
              in (Inr (), st8)))"

definition run_body :: "cancel \<Rightarrow> env \<Rightarrow> worker \<Rightarrow> wstate \<Rightarrow> (exn + unit) \<times> wstate" where
  "run_body c ev w st =
     (let st1 = emit (status_extracting ev (file1 w)) st in
      case extract_text c (open_pdf ev (file1 w)) st1 of
        (Inl e, st2) \<Rightarrow> (Inl e, st2)
      | (Inr text1, st2) \<Rightarrow>
          (let (running, st3) = is_running c st2 in
           if \<not> running then (Inr (), st3)
           else
             (let st4 = emit (Progress 30) st3;
                  st5 = emit (status_extracting ev (file2 w)) st4
              in case extract_text c (open_pdf ev (file2 w)) st5 of
                   (Inl e, st6) \<Rightarrow> (Inl e, st6)
                 | (Inr text2, st6) \<Rightarrow>
                     (let (running, st7) = is_running c st6 in
                      if \<not> running then (Inr (), st7)
                      else compare_and_format c text1 text2 st7))))"

definition run :: "cancel \<Rightarrow> env \<Rightarrow> worker \<Rightarrow> wstate" where
  "run c ev w =
     (case run_body c ev w init_state of
        (Inl e, st) \<Rightarrow> emit Finished (emit (Error (msg_error @ str_exn e)) st)
      | (Inr u, st) \<Rightarrow> emit Finished st)"

section \<open>Notions used in the statements\<close>

text \<open>
  The kind of a line of the diff, read off its two-character marker exactly as the
  formatting loop of \<^verbatim>\<open>run\<close> tests it, the line it carries, the markup the loop
  produces for it, and the report the loop and the summary line add up to.
\<close>

datatype kind = Unchanged | Added | Removed | IntralineHint

definition kind_of :: "pystr \<Rightarrow> kind" where
  "kind_of line =
     (if startswith line (ascii ''- '') then Removed
      else if startswith line (ascii ''+ '') then Added
      else if \<not> startswith line (ascii ''? '') then Unchanged
      else IntralineHint)"

definition payload :: "pystr \<Rightarrow> pystr" where
  "payload line = drop 2 line"

definition render_line :: "pystr \<Rightarrow> pystr" where
  "render_line line =
     (case kind_of line of
        Removed \<Rightarrow> span ''red'' line
      | Added \<Rightarrow> span ''green'' line
      | Unchanged \<Rightarrow> span ''gray'' line
      | IntralineHint \<Rightarrow> [])"

definition count_kind :: "kind \<Rightarrow> pystr list \<Rightarrow> nat" where
  "count_kind k diff = length (filter (\<lambda>line. kind_of line = k) diff)"

definition report :: "pystr list \<Rightarrow> pystr" where
  "report diff =
     join (ascii ''<br>'')
       (map render_line (filter (\<lambda>line. kind_of line \<noteq> IntralineHint) diff)
        @ [summary_line (count_kind Added diff) (count_kind Removed diff)])"

text \<open>
  States of the worker, by their log: \<open>clean\<close> when no checkpoint has read the flag as
  cleared; \<open>good\<close> when moreover only progress and status were emitted; \<open>stopped\<close>
  when the log ends in checkpoints that read the flag as cleared, the flag stays
  cleared, and no result, error or finished was emitted.  \<open>ended\<close> describes the
  state in which the \<^verbatim>\<open>try\<close> block ends.
\<close>

definition clean :: "event list \<Rightarrow> bool" where
  "clean es \<longleftrightarrow> Poll False \<notin> set es"

definition body_log :: "event list \<Rightarrow> bool" where
  "body_log es \<longleftrightarrow> Emit Finished \<notin> set es \<and> (\<forall>m. Emit (Error m) \<notin> set es)"

definition no_result :: "event list \<Rightarrow> bool" where
  "no_result es \<longleftrightarrow> (\<forall>r. Emit (Result r) \<notin> set es)"

definition tail :: "cancel \<Rightarrow> wstate \<Rightarrow> bool" where
  "tail c st \<longleftrightarrow>
     (\<exists>es0 k. log st = es0 @ replicate (Suc k) (Poll False) \<and> clean es0)
     \<and> \<not> flag_at c (polls st)"

definition good :: "wstate \<Rightarrow> bool" where
  "good st \<longleftrightarrow> clean (log st) \<and> body_log (log st) \<and> no_result (log st)"

definition stopped :: "cancel \<Rightarrow> wstate \<Rightarrow> bool" where
  "stopped c st \<longleftrightarrow> tail c st \<and> body_log (log st) \<and> no_result (log st)"

definition ended :: "cancel \<Rightarrow> (exn + unit) \<times> wstate \<Rightarrow> bool" where
  "ended c x =
     (case x of
        (Inl e, st) \<Rightarrow> good st
      | (Inr u, st) \<Rightarrow> body_log (log st) \<and> (clean (log st) \<or> stopped c st))"

text \<open>
  A document on which both strategies fail; a document from which text is extracted;
  the progress notifications its fallback extraction emits; and the two kinds of
  notification counted below.
\<close>

definition both_fail :: "pdf \<Rightarrow> bool" where
  "both_fail d \<longleftrightarrow>
     (\<exists>e. primary d = Inl e)
     \<and> (case reader d of Inl e \<Rightarrow> True | Inr pages \<Rightarrow> (\<exists>p\<in>set pages. raises p))"

definition extracts :: "pdf \<Rightarrow> pystr \<Rightarrow> bool" where
  "extracts d t \<longleftrightarrow>
     primary d = Inr t
     \<or> ((\<exists>e. primary d = Inl e)
         \<and> (\<exists>pages. reader d = Inr pages \<and> (\<forall>p\<in>set pages. \<not> raises p)
               \<and> t = concat (map page_str pages)))"

definition fallback_progress :: "pdf \<Rightarrow> notification list" where
  "fallback_progress d =
     (case primary d of
        Inr t \<Rightarrow> []
      | Inl e \<Rightarrow>
          (case reader d of
             Inl e2 \<Rightarrow> []
           | Inr pages \<Rightarrow>
               map (\<lambda>i. Progress (10 + int i * 40 div int (length pages))) [0..<length pages]))"

fun is_error :: "notification \<Rightarrow> bool" where
  "is_error (Error m) = True"
| "is_error n = False"

fun is_result :: "notification \<Rightarrow> bool" where
  "is_result (Result r) = True"
| "is_result n = False"

text \<open>An environment with three files, for the concrete runs below.\<close>

definition example_env :: env where
  "example_env =
     \<lparr>name_of = (\<lambda>p. p),
      open_pdf = (\<lambda>p. if p = ascii ''a.pdf'' then \<lparr>primary = Inr [], reader = Inr []\<rparr>
                      else if p = ascii ''b.pdf''
                        then \<lparr>primary = Inl (Exception (ascii ''no text'')),
                              reader = Inr [PageText (ascii ''x''), PageNone]\<rparr>
                      else \<lparr>primary = Inl (Exception (ascii ''not a PDF'')),
                            reader = Inl (Exception (ascii ''no such file''))\<rparr>)\<rparr>"

text \<open>
  The two sides of a diff: the lines the formatting loop would classify as unchanged or
  removed, respectively unchanged or added, without their two-character marker; and the
  segment \<open>xs[lo:hi]\<close> of a list.
\<close>

definition seg :: "'a list \<Rightarrow> nat \<Rightarrow> nat \<Rightarrow> 'a list" where
  "seg xs lo hi = take (hi - lo) (drop lo xs)"

definition a_side :: "pystr list \<Rightarrow> pystr list" where
  "a_side out =
     map payload (filter (\<lambda>line. kind_of line = Unchanged \<or> kind_of line = Removed) out)"

definition b_side :: "pystr list \<Rightarrow> pystr list" where
  "b_side out =
     map payload (filter (\<lambda>line. kind_of line = Unchanged \<or> kind_of line = Added) out)"

text \<open>
  Invariants of the \<^verbatim>\<open>difflib\<close> model.  The search of \<^verbatim>\<open>_fancy_replace\<close> records as
  its identical pair only a pair of equal lines (\<open>eq_ok\<close>); a piece of output has the
  right sides for the two ranges it renders (\<open>sides_ok\<close>).  A matching block is a run
  of pairwise equal elements inside both sequences (\<open>blk\<close>); one block lies before
  another when it ends, in both sequences, where the other starts or earlier
  (\<open>before\<close>); the rectangles still queued by \<^verbatim>\<open>get_matching_blocks\<close> lie inside the
  sequences (\<open>rect_ok\<close>), apart from each other (\<open>rsep\<close>) and from the blocks found so
  far (\<open>sep\<close>), which are pairwise ordered (\<open>chain_set\<close>); \<open>mb_inv\<close> is the invariant of
  the \<^verbatim>\<open>while queue\<close> loop.  The final list of blocks is a chain that starts at or
  after a position (\<open>mchain\<close>) and ends where its last block ends (\<open>endpos\<close>).
\<close>

definition eq_ok :: "pystr list \<Rightarrow> pystr list \<Rightarrow> search_state \<Rightarrow> bool" where
  "eq_ok a b s =
     (case s of (best_ratio, best, eq) \<Rightarrow>
        (case eq of None \<Rightarrow> True | Some (i, j) \<Rightarrow> a ! i = b ! j))"

definition sides_ok ::
  "pystr list \<Rightarrow> nat \<Rightarrow> nat \<Rightarrow> pystr list \<Rightarrow> nat \<Rightarrow> nat \<Rightarrow> pystr list \<Rightarrow> bool" where
  "sides_ok a alo ahi b blo bhi out \<longleftrightarrow>
     (alo \<le> ahi \<and> ahi \<le> length a \<and> blo \<le> bhi \<and> bhi \<le> length b \<longrightarrow>
      a_side out = seg a alo ahi \<and> b_side out = seg b blo bhi)"

definition blk :: "'a list \<Rightarrow> 'a list \<Rightarrow> match \<Rightarrow> bool" where
  "blk a b m =
     (case m of (i, j, k) \<Rightarrow>
        0 < k \<and> i + k \<le> length a \<and> j + k \<le> length b \<and> (\<forall>t<k. a ! (i + t) = b ! (j + t)))"

definition before :: "match \<Rightarrow> match \<Rightarrow> bool" where
  "before x y = (case x of (i1, j1, k1) \<Rightarrow> case y of (i2, j2, k2) \<Rightarrow>
                   i1 + k1 \<le> i2 \<and> j1 + k1 \<le> j2)"

definition sep :: "rect \<Rightarrow> match \<Rightarrow> bool" where
  "sep r m = (case r of (alo, ahi, blo, bhi) \<Rightarrow> case m of (i, j, k) \<Rightarrow>
                (i + k \<le> alo \<and> j + k \<le> blo) \<or> (ahi \<le> i \<and> bhi \<le> j))"

definition rsep :: "rect \<Rightarrow> rect \<Rightarrow> bool" where
  "rsep r1 r2 = (case r1 of (alo1, ahi1, blo1, bhi1) \<Rightarrow> case r2 of (alo2, ahi2, blo2, bhi2) \<Rightarrow>
                   (ahi1 \<le> alo2 \<and> bhi1 \<le> blo2) \<or> (ahi2 \<le> alo1 \<and> bhi2 \<le> blo1))"

definition rect_ok :: "'a list \<Rightarrow> 'a list \<Rightarrow> rect \<Rightarrow> bool" where
  "rect_ok a b r = (case r of (alo, ahi, blo, bhi) \<Rightarrow>
                      alo \<le> ahi \<and> ahi \<le> length a \<and> blo \<le> bhi \<and> bhi \<le> length b)"

definition chain_set :: "'a list \<Rightarrow> 'a list \<Rightarrow> match list \<Rightarrow> bool" where
  "chain_set a b blocks \<longleftrightarrow>
     (\<forall>x\<in>set blocks. blk a b x) \<and> distinct blocks
     \<and> (\<forall>x\<in>set blocks. \<forall>y\<in>set blocks. x \<noteq> y \<longrightarrow> before x y \<or> before y x)"

definition mb_inv :: "'a list \<Rightarrow> 'a list \<Rightarrow> rect list \<Rightarrow> match list \<Rightarrow> bool" where
  "mb_inv a b queue blocks \<longleftrightarrow>
     chain_set a b blocks
     \<and> (\<forall>r\<in>set queue. rect_ok a b r)
     \<and> (\<forall>r\<in>set queue. \<forall>x\<in>set blocks. sep r x)
     \<and> sorted_wrt rsep queue"

fun mchain :: "'a list \<Rightarrow> 'a list \<Rightarrow> nat \<Rightarrow> nat \<Rightarrow> match list \<Rightarrow> bool" where
  "mchain a b i j [] = True"
| "mchain a b i j ((ai, bj, sz) # rest) =
     (i \<le> ai \<and> j \<le> bj \<and> ai + sz \<le> length a \<and> bj + sz \<le> length b
      \<and> (\<forall>t<sz. a ! (ai + t) = b ! (bj + t)) \<and> mchain a b (ai + sz) (bj + sz) rest)"

fun endpos :: "nat \<Rightarrow> nat \<Rightarrow> match list \<Rightarrow> nat \<times> nat" where
  "endpos i j [] = (i, j)"
| "endpos i j ((ai, bj, sz) # rest) = endpos (ai + sz) (bj + sz) rest"


section \<open>Properties of the extraction\<close>

lemma notifications_append: "notifications (xs @ ys) = notifications xs @ notifications ys"
  by (induction xs rule: notifications.induct) auto

lemma pages_loop_complete:
  assumes "\<forall>p\<in>set ps. \<not> raises p" and "n \<noteq> 0"
  shows "fst (pages_loop None n ps i acc st) = Inr (acc @ concat (map page_str ps))
       \<and> notifications (log (snd (pages_loop None n ps i acc st))) =
           notifications (log st) @ map (\<lambda>j. Progress (10 + int j * 40 div int n)) [i..<i + length ps]"
  using assms
proof (induction ps arbitrary: i acc st)
  case Nil
  then show ?case by simp
next
  case (Cons p ps)
  then have np: "\<not> raises p" and rest: "\<forall>q\<in>set ps. \<not> raises q" by auto
  from np obtain t where pt: "page_text p = Inr t" and ps: "page_str p = t"
    by (cases p) auto
  let ?st2 = "emit (Progress (10 + int i * 40 div int n)) (snd (is_running None st))"
  have step: "pages_loop None n (p # ps) i acc st = pages_loop None n ps (Suc i) (acc @ t) ?st2"
    using Cons.prems(2) pt by (simp add: is_running_def flag_at_def py_floordiv_def Let_def)
  have lg: "notifications (log ?st2) = notifications (log st) @ [Progress (10 + int i * 40 div int n)]"
    by (simp add: emit_def is_running_def Let_def notifications_append)
  have ups: "[i..<Suc (i + length ps)] = i # [Suc i..<Suc (i + length ps)]"
    using upt_conv_Cons[of i "Suc (i + length ps)"] by simp
  show ?case
    unfolding step using Cons.IH[OF rest Cons.prems(2), of "Suc i" "acc @ t" ?st2] lg ps
    by (simp add: ups del: upt_Suc)
qed

lemma pages_loop_raise:
  assumes "\<forall>p\<in>set pre. \<not> raises p" and "n \<noteq> 0"
  shows "fst (pages_loop None n (pre @ PageRaises e # post) i acc st) = Inl e"
  using assms
proof (induction pre arbitrary: i acc st)
  case Nil
  then show ?case
    by (simp add: is_running_def flag_at_def py_floordiv_def Let_def)
next
  case (Cons p pre)
  then have np: "\<not> raises p" and rest: "\<forall>q\<in>set pre. \<not> raises q" by auto
  from np obtain t where pt: "page_text p = Inr t" by (cases p) auto
  show ?case
    using Cons.IH[OF rest Cons.prems(2)] pt Cons.prems(2)
    by (simp add: is_running_def flag_at_def py_floordiv_def Let_def)
qed

lemma pages_loop_log:
  assumes "n \<noteq> 0"
  shows "\<exists>k\<le>length ps. notifications (log (snd (pages_loop c n ps i acc st))) =
           notifications (log st) @ map (\<lambda>j. Progress (10 + int j * 40 div int n)) [i..<i + k]"
  using assms
proof (induction ps arbitrary: i acc st)
  case Nil
  then show ?case by simp
next
  case (Cons p ps)
  let ?st1 = "snd (is_running c st)"
  let ?st2 = "emit (Progress (10 + int i * 40 div int n)) ?st1"
  have lg1: "notifications (log ?st1) = notifications (log st)"
    by (simp add: is_running_def Let_def notifications_append)
  have lg: "notifications (log ?st2) = notifications (log st) @ [Progress (10 + int i * 40 div int n)]"
    by (simp add: emit_def is_running_def Let_def notifications_append)
  show ?case
  proof (cases "fst (is_running c st)")
    case False
    then have "pages_loop c n (p # ps) i acc st = (Inr [], ?st1)"
      by (simp add: case_prod_beta Let_def)
    then show ?thesis using lg1 by (intro exI[of _ 0]) simp
  next
    case True
    show ?thesis
    proof (cases "page_text p")
      case (Inl e)
      then have "pages_loop c n (p # ps) i acc st = (Inl e, ?st2)"
        using True Cons.prems by (simp add: case_prod_beta Let_def py_floordiv_def)
      then show ?thesis using lg by (intro exI[of _ 1]) simp
    next
      case (Inr t)
      then have step: "pages_loop c n (p # ps) i acc st = pages_loop c n ps (Suc i) (acc @ t) ?st2"
        using True Cons.prems by (simp add: case_prod_beta Let_def py_floordiv_def)
      from Cons.IH[OF Cons.prems, of "Suc i" "acc @ t" ?st2] obtain k where
        k: "k \<le> length ps" and
        eq: "notifications (log (snd (pages_loop c n ps (Suc i) (acc @ t) ?st2))) =
             notifications (log ?st2) @ map (\<lambda>j. Progress (10 + int j * 40 div int n)) [Suc i..<Suc i + k]"
        by blast
      have ups: "[i..<Suc (i + k)] = i # [Suc i..<Suc (i + k)]"
        using upt_conv_Cons[of i "Suc (i + k)"] by simp
      show ?thesis
        unfolding step using k eq lg
        by (intro exI[of _ "Suc k"]) (simp add: ups del: upt_Suc)
    qed
  qed
qed

lemma pages_loop_error_source:
  assumes "pages_loop c n ps i acc st = (Inl e, st')" and "n \<noteq> 0"
  shows "PageRaises e \<in> set ps"
  using assms
proof (induction ps arbitrary: i acc st)
  case Nil
  then show ?case by simp
next
  case (Cons p ps)
  show ?case
  proof (cases p)
    case (PageRaises e')
    then show ?thesis using Cons.prems
      by (auto simp: case_prod_beta Let_def py_floordiv_def split: if_splits)
  next
    case (PageText t)
    then show ?thesis using Cons.prems Cons.IH
      by (auto simp: case_prod_beta Let_def py_floordiv_def split: if_splits)
  next
    case PageNone
    then show ?thesis using Cons.prems Cons.IH
      by (auto simp: case_prod_beta Let_def py_floordiv_def split: if_splits)
  qed
qed

lemma progress_range:
  assumes "i < n"
  shows "10 \<le> 10 + int i * 40 div int n \<and> 10 + int i * 40 div int n \<le> 49"
proof -
  have "i * 40 div n < 40"
    using assms by (simp add: div_less_iff_less_mult)
  moreover have "int i * 40 div int n = int (i * 40 div n)"
    by (simp add: zdiv_int)
  ultimately show ?thesis by simp
qed


lemma extract_text_fallback:
  "primary d = Inl e0 \<Longrightarrow> reader d = Inr pages \<Longrightarrow>
   extract_text c d st =
     (case pages_loop c (length pages) pages 0 [] st of
        (Inr t, st') \<Rightarrow> (Inr t, st')
      | (Inl e2, st') \<Rightarrow> (Inl (Exception (msg_extraction_error @ str_exn e2)), st'))"
  by (simp add: extract_text_def fallback_def)

lemma extract_text_fallback_snd:
  "primary d = Inl e0 \<Longrightarrow> reader d = Inr pages \<Longrightarrow>
   snd (extract_text c d st) = snd (pages_loop c (length pages) pages 0 [] st)"
  by (simp add: extract_text_fallback split: prod.splits sum.splits)

lemma extract_text_fallback_fst:
  "primary d = Inl e0 \<Longrightarrow> reader d = Inr pages \<Longrightarrow>
   fst (extract_text c d st) =
     (case fst (pages_loop c (length pages) pages 0 [] st) of
        Inr t \<Rightarrow> Inr t
      | Inl e2 \<Rightarrow> Inl (Exception (msg_extraction_error @ str_exn e2)))"
  by (simp add: extract_text_fallback split: prod.splits sum.splits)

lemma is_running_eq:
  "is_running c st = (flag_at c (polls st), st\<lparr>polls := Suc (polls st), log := log st @ [Poll (flag_at c (polls st))]\<rparr>)"
  by (simp add: is_running_def Let_def)

lemma pages_loop_reached_all:
  assumes "\<forall>p\<in>set ps. \<not> raises p" and "n \<noteq> 0"
    and "\<forall>i<length ps. flag_at c (polls st + i)"
  shows "fst (pages_loop c n ps i0 acc st) = Inr (acc @ concat (map page_str ps))"
  using assms
proof (induction ps arbitrary: i0 acc st)
  case Nil
  then show ?case by simp
next
  case (Cons p ps)
  then have np: "\<not> raises p" and rest: "\<forall>q\<in>set ps. \<not> raises q" by auto
  from np obtain t where pt: "page_text p = Inr t" and ps: "page_str p = t"
    by (cases p) auto
  have f0: "flag_at c (polls st)" using Cons.prems(3) by force
  let ?st2 = "emit (Progress (10 + int i0 * 40 div int n))
      (st\<lparr>polls := Suc (polls st), log := log st @ [Poll True]\<rparr>)"
  have fl: "\<forall>i<length ps. flag_at c (polls ?st2 + i)"
  proof (intro allI impI)
    fix i assume "i < length ps"
    then have "flag_at c (polls st + Suc i)" using Cons.prems(3) by force
    then show "flag_at c (polls ?st2 + i)" by (simp add: emit_def)
  qed
  have step: "pages_loop c n (p # ps) i0 acc st = pages_loop c n ps (Suc i0) (acc @ t) ?st2"
    using Cons.prems(2) pt f0 by (simp add: is_running_eq py_floordiv_def Let_def)
  show ?case
    unfolding step using Cons.IH[OF rest Cons.prems(2) fl, of "Suc i0" "acc @ t"] ps by simp
qed

lemma pages_loop_reached_raise:
  assumes "\<forall>p\<in>set pre. \<not> raises p" and "n \<noteq> 0"
    and "\<forall>i\<le>length pre. flag_at c (polls st + i)"
  shows "fst (pages_loop c n (pre @ PageRaises e # post) i0 acc st) = Inl e"
  using assms
proof (induction pre arbitrary: i0 acc st)
  case Nil
  then show ?case
    by (simp add: is_running_eq py_floordiv_def Let_def)
next
  case (Cons p pre)
  then have np: "\<not> raises p" and rest: "\<forall>q\<in>set pre. \<not> raises q" by auto
  from np obtain t where pt: "page_text p = Inr t" by (cases p) auto
  have f0: "flag_at c (polls st)" using Cons.prems(3) by force
  let ?st2 = "emit (Progress (10 + int i0 * 40 div int n))
      (st\<lparr>polls := Suc (polls st), log := log st @ [Poll True]\<rparr>)"
  have fl: "\<forall>i\<le>length pre. flag_at c (polls ?st2 + i)"
  proof (intro allI impI)
    fix i assume "i \<le> length pre"
    then have "flag_at c (polls st + Suc i)" using Cons.prems(3) by force
    then show "flag_at c (polls ?st2 + i)" by (simp add: emit_def)
  qed
  have step: "pages_loop c n ((p # pre) @ PageRaises e # post) i0 acc st
      = pages_loop c n (pre @ PageRaises e # post) (Suc i0) (acc @ t) ?st2"
    using Cons.prems(2) pt f0 by (simp add: is_running_eq py_floordiv_def Let_def)
  show ?case
    unfolding step using Cons.IH[OF rest Cons.prems(2) fl] by simp
qed

lemma pages_loop_cancelled:
  assumes "\<forall>p\<in>set (take k ps). \<not> raises p" and "n \<noteq> 0" and "k < length ps"
    and "\<forall>i<k. flag_at c (polls st + i)" and "\<not> flag_at c (polls st + k)"
  shows "fst (pages_loop c n ps i0 acc st) = Inr []"
  using assms
proof (induction ps arbitrary: k i0 acc st)
  case Nil
  then show ?case by simp
next
  case (Cons p ps)
  show ?case
  proof (cases k)
    case 0
    then have "\<not> flag_at c (polls st)" using Cons.prems(5) by simp
    then show ?thesis by (simp add: is_running_eq)
  next
    case (Suc k')
    then have np: "\<not> raises p" and rest: "\<forall>q\<in>set (take k' ps). \<not> raises q"
      using Cons.prems(1) by auto
    from np obtain t where pt: "page_text p = Inr t" by (cases p) auto
    have f0: "flag_at c (polls st)" using Cons.prems(4) Suc by force
    let ?st2 = "emit (Progress (10 + int i0 * 40 div int n))
        (st\<lparr>polls := Suc (polls st), log := log st @ [Poll True]\<rparr>)"
    have fl: "\<forall>i<k'. flag_at c (polls ?st2 + i)"
    proof (intro allI impI)
      fix i assume "i < k'"
      then have "flag_at c (polls st + Suc i)" using Cons.prems(4) Suc by force
      then show "flag_at c (polls ?st2 + i)" by (simp add: emit_def)
    qed
    have nf: "\<not> flag_at c (polls ?st2 + k')"
      using Cons.prems(5) Suc by (simp add: emit_def)
    have kl: "k' < length ps" using Cons.prems(3) Suc by simp
    have step: "pages_loop c n (p # ps) i0 acc st = pages_loop c n ps (Suc i0) (acc @ t) ?st2"
      using Cons.prems(2) pt f0 by (simp add: is_running_eq py_floordiv_def Let_def)
    show ?thesis
      unfolding step using Cons.IH[OF rest Cons.prems(2) kl fl nf] by simp
  qed
qed

text \<open>
  Claim C1, as the code has it.  In the page-by-page strategy the loop reads the running
  flag before each page, and a page whose \<^verbatim>\<open>extract_text()\<close> returns \<^verbatim>\<open>None\<close> or the
  empty string contributes empty text and the loop goes on.  Whatever the cancel point and
  the starting state, exactly one of three things happens first.  When no page raises and
  every read of the flag sees it set, the result is the concatenation of the pages' texts
  in order.  A page whose \<^verbatim>\<open>extract_text()\<close> raises is not recovered locally: when the
  first such page is reached (every read of the flag up to and including its own sees the
  flag set), it aborts the whole extraction, which raises the extraction error carrying
  that page's failure reason.  When the flag is read as cleared at a page that no raising
  page precedes, the extraction returns the empty text and raises nothing.
\<close>

theorem C1_page_failure:
  assumes "primary d = Inl e0" and "reader d = Inr pages"
  shows "((\<forall>p\<in>set pages. \<not> raises p) \<and> (\<forall>i<length pages. flag_at c (polls st + i)) \<longrightarrow>
            fst (extract_text c d st) = Inr (concat (map page_str pages)))
       \<and> (\<forall>pre e post. pages = pre @ PageRaises e # post \<and> (\<forall>p\<in>set pre. \<not> raises p)
              \<and> (\<forall>i\<le>length pre. flag_at c (polls st + i)) \<longrightarrow>
            fst (extract_text c d st) = Inl (Exception (msg_extraction_error @ str_exn e)))
       \<and> (\<forall>k<length pages. (\<forall>p\<in>set (take k pages). \<not> raises p)
              \<and> (\<forall>i<k. flag_at c (polls st + i)) \<and> \<not> flag_at c (polls st + k) \<longrightarrow>
            fst (extract_text c d st) = Inr [])"
proof (intro conjI impI allI)
  assume ok: "(\<forall>p\<in>set pages. \<not> raises p) \<and> (\<forall>i<length pages. flag_at c (polls st + i))"
  show "fst (extract_text c d st) = Inr (concat (map page_str pages))"
  proof (cases "pages = []")
    case True
    then show ?thesis using assms by (simp add: extract_text_fallback_fst)
  next
    case False
    then have "length pages \<noteq> 0" by simp
    from pages_loop_reached_all[OF conjunct1[OF ok] this conjunct2[OF ok], of 0 "[]"]
    show ?thesis using assms by (simp add: extract_text_fallback_fst)
  qed
next
  fix pre e post
  assume h: "pages = pre @ PageRaises e # post \<and> (\<forall>p\<in>set pre. \<not> raises p)
              \<and> (\<forall>i\<le>length pre. flag_at c (polls st + i))"
  then have n: "length pages \<noteq> 0" by simp
  from h have h1: "\<forall>p\<in>set pre. \<not> raises p" and h2: "\<forall>i\<le>length pre. flag_at c (polls st + i)"
    by auto
  from pages_loop_reached_raise[OF h1 n h2, of e post 0 "[]"]
  show "fst (extract_text c d st) = Inl (Exception (msg_extraction_error @ str_exn e))"
    using assms h by (simp add: extract_text_fallback_fst)
next
  fix k
  assume k: "k < length pages"
    and h: "(\<forall>p\<in>set (take k pages). \<not> raises p)
              \<and> (\<forall>i<k. flag_at c (polls st + i)) \<and> \<not> flag_at c (polls st + k)"
  then have n: "length pages \<noteq> 0" by auto
  from h have h1: "\<forall>p\<in>set (take k pages). \<not> raises p"
    and h2: "\<forall>i<k. flag_at c (polls st + i)" and h3: "\<not> flag_at c (polls st + k)"
    by auto
  from pages_loop_cancelled[OF h1 n k h2 h3, of 0 "[]"]
  show "fst (extract_text c d st) = Inr []"
    using assms by (simp add: extract_text_fallback_fst)
qed

theorem C1_page_failure_witness:
  "fst (extract_text None
          \<lparr>primary = Inl (Exception (ascii ''no text'')),
           reader = Inr [PageText (ascii ''a''), PageNone, PageText (ascii ''b'')]\<rparr> init_state)
     = Inr (ascii ''ab'')
   \<and> fst (extract_text None
          \<lparr>primary = Inl (Exception (ascii ''no text'')),
           reader = Inr [PageNone, PageRaises (Exception (ascii ''bad page'')), PageNone]\<rparr> init_state)
     = Inl (Exception (msg_extraction_error @ ascii ''bad page''))
   \<and> fst (extract_text (Some 1)
          \<lparr>primary = Inl (Exception (ascii ''no text'')),
           reader = Inr [PageText (ascii ''a''), PageRaises (Exception (ascii ''bad page''))]\<rparr>
          init_state)
     = Inr []"
proof -
  let ?d1 = "\<lparr>primary = Inl (Exception (ascii ''no text'')),
           reader = Inr [PageText (ascii ''a''), PageNone, PageText (ascii ''b'')]\<rparr>"
  let ?d2 = "\<lparr>primary = Inl (Exception (ascii ''no text'')),
           reader = Inr [PageNone, PageRaises (Exception (ascii ''bad page'')), PageNone]\<rparr>"
  let ?d3 = "\<lparr>primary = Inl (Exception (ascii ''no text'')),
           reader = Inr [PageText (ascii ''a''), PageRaises (Exception (ascii ''bad page''))]\<rparr>"
  have a: "fst (extract_text None ?d1 init_state) = Inr (ascii ''ab'')"
    using C1_page_failure[of ?d1 "Exception (ascii ''no text'')"
        "[PageText (ascii ''a''), PageNone, PageText (ascii ''b'')]" None init_state]
    by (simp add: ascii_def flag_at_def)
  have b: "fst (extract_text None ?d2 init_state)
      = Inl (Exception (msg_extraction_error @ ascii ''bad page''))"
    using C1_page_failure[of ?d2 "Exception (ascii ''no text'')"
        "[PageNone, PageRaises (Exception (ascii ''bad page'')), PageNone]" None init_state]
    by (simp add: Cons_eq_append_conv flag_at_def)
  have k: "(1::nat) < length [PageText (ascii ''a''), PageRaises (Exception (ascii ''bad page''))]"
    by simp
  have h: "(\<forall>p\<in>set (take 1 [PageText (ascii ''a''), PageRaises (Exception (ascii ''bad page''))]).
              \<not> raises p)
        \<and> (\<forall>i<1. flag_at (Some 1) (polls init_state + i))
        \<and> \<not> flag_at (Some 1) (polls init_state + 1)"
    by (simp add: flag_at_def init_state_def)
  have c: "fst (extract_text (Some 1) ?d3 init_state) = Inr []"
    using C1_page_failure[of ?d3 "Exception (ascii ''no text'')"
        "[PageText (ascii ''a''), PageRaises (Exception (ascii ''bad page''))]" "Some 1" init_state]
      k h
    by (metis pdf.select_convs(1) pdf.select_convs(2))
  show ?thesis using a b c by simp
qed

text \<open>
  The claim as stated fails: with a raising second page the extraction aborts.
\<close>

theorem C1_counterexample:
  "fst (extract_text None
          \<lparr>primary = Inl (Exception (ascii ''no text'')),
           reader = Inr [PageText (ascii ''a''), PageRaises (Exception (ascii ''bad page'')),
                         PageText (ascii ''b'')]\<rparr> init_state)
     = Inl (Exception (msg_extraction_error @ ascii ''bad page''))"
  by (simp add: extract_text_def fallback_def is_running_def flag_at_def py_floordiv_def
      emit_def init_state_def Let_def)

text \<open>
  Claim C9.  In a fallback extraction of a document with \<open>n \<ge> 1\<close> pages, started in
  any state (so for the second document as well as the first), the notifications
  emitted are exactly the progress values \<open>10 + (i * 40) div n\<close> for the pages
  \<open>i = 0, ..., k - 1\<close> that were reached, in order; each lies in \<open>[10, 49]\<close>; and all
  \<open>n\<close> pages are reached when the run is not cancelled and no page raises.
\<close>

theorem C9_fallback_progress:
  assumes "primary d = Inl e0" and "reader d = Inr pages" and "1 \<le> length pages"
  shows "\<exists>k\<le>length pages.
           notifications (log (snd (extract_text c d st))) =
             notifications (log st) @
             map (\<lambda>i. Progress (10 + int i * 40 div int (length pages))) [0..<k]
         \<and> (\<forall>i<k. 10 \<le> 10 + int i * 40 div int (length pages)
                  \<and> 10 + int i * 40 div int (length pages) \<le> 49)
         \<and> (c = None \<and> (\<forall>p\<in>set pages. \<not> raises p) \<longrightarrow> k = length pages)"
proof -
  have n: "length pages \<noteq> 0" using assms(3) by auto
  have range: "\<forall>i<k. 10 \<le> 10 + int i * 40 div int (length pages)
                  \<and> 10 + int i * 40 div int (length pages) \<le> 49" if "k \<le> length pages" for k
    using that progress_range[of _ "length pages"] by auto
  show ?thesis
  proof (cases "c = None \<and> (\<forall>p\<in>set pages. \<not> raises p)")
    case True
    then have ok: "\<forall>p\<in>set pages. \<not> raises p" and c: "c = None" by auto
    from pages_loop_complete[OF ok n, of 0 "[]" st]
    have "notifications (log (snd (extract_text c d st))) =
             notifications (log st) @
             map (\<lambda>i. Progress (10 + int i * 40 div int (length pages))) [0..<length pages]"
      using assms(1,2) c by (simp add: extract_text_fallback_snd)
    then show ?thesis using range[of "length pages"] by (intro exI[of _ "length pages"]) simp
  next
    case False
    from pages_loop_log[OF n, of pages c 0 "[]" st] obtain k where
      k: "k \<le> length pages" and
      eq: "notifications (log (snd (pages_loop c (length pages) pages 0 [] st))) =
           notifications (log st) @
           map (\<lambda>j. Progress (10 + int j * 40 div int (length pages))) [0..<0 + k]"
      by blast
    have "notifications (log (snd (extract_text c d st))) =
             notifications (log st) @
             map (\<lambda>i. Progress (10 + int i * 40 div int (length pages))) [0..<k]"
      using eq assms(1,2) by (simp add: extract_text_fallback_snd)
    then show ?thesis using range[OF k] k False by (intro exI[of _ k]) blast
  qed
qed

theorem C9_fallback_progress_witness:
  "notifications (log (snd (extract_text None
      \<lparr>primary = Inl (Exception (ascii ''no text'')),
       reader = Inr [PageText (ascii ''a''), PageNone, PageText (ascii ''b'')]\<rparr>
      (emit (Progress 30) init_state))))
   = [Progress 30, Progress 10, Progress 23, Progress 36]"
proof -
  let ?ps = "[PageText (ascii ''a''), PageNone, PageText (ascii ''b'')]"
  let ?d = "\<lparr>primary = Inl (Exception (ascii ''no text'')), reader = Inr ?ps\<rparr>"
  let ?st = "emit (Progress 30) init_state"
  define N where "N = notifications (log (snd (extract_text None ?d ?st)))"
  have inst: "\<exists>k\<le>length ?ps.
           N = notifications (log ?st) @
             map (\<lambda>i. Progress (10 + int i * 40 div int (length ?ps))) [0..<k]
         \<and> (\<forall>i<k. 10 \<le> 10 + int i * 40 div int (length ?ps)
                  \<and> 10 + int i * 40 div int (length ?ps) \<le> 49)
         \<and> ((None :: cancel) = None \<and> (\<forall>p\<in>set ?ps. \<not> raises p) \<longrightarrow> k = length ?ps)"
    unfolding N_def
    by (rule C9_fallback_progress[of ?d "Exception (ascii ''no text'')" ?ps None ?st]) simp_all
  have c: "(None :: cancel) = None \<and> (\<forall>p\<in>set ?ps. \<not> raises p)" by simp
  from inst c have "N = notifications (log ?st) @
             map (\<lambda>i. Progress (10 + int i * 40 div int (length ?ps))) [0..<length ?ps]"
    by blast
  then show ?thesis unfolding N_def by (simp add: emit_def init_state_def upt_rec)
qed

text \<open>
  Claim C10.  The fallback never fails by dividing by zero: every exception leaving the
  page-by-page strategy is one that \<^verbatim>\<open>PdfReader\<close> or a page raised, never the
  \<^verbatim>\<open>ZeroDivisionError\<close> of the progress expression; and a document with zero pages
  yields the empty text with no event at all (the state is returned unchanged).
\<close>

theorem C10_no_division_by_zero:
  "(fallback c d st = (Inl e, st') \<longrightarrow>
      reader d = Inl e \<or> (\<exists>pages. reader d = Inr pages \<and> PageRaises e \<in> set pages))
   \<and> (reader d = Inr [] \<longrightarrow> fallback c d st = (Inr [], st))"
proof (intro conjI impI)
  assume h: "fallback c d st = (Inl e, st')"
  show "reader d = Inl e \<or> (\<exists>pages. reader d = Inr pages \<and> PageRaises e \<in> set pages)"
  proof (cases "reader d")
    case (Inl e')
    then show ?thesis using h by (simp add: fallback_def)
  next
    case (Inr pages)
    show ?thesis
    proof (cases "pages = []")
      case True
      then show ?thesis using h Inr by (simp add: fallback_def)
    next
      case False
      then have "length pages \<noteq> 0" by simp
      from pages_loop_error_source[OF _ this, of c pages 0 "[]" st e st'] h Inr
      show ?thesis by (simp add: fallback_def)
    qed
  qed
next
  assume "reader d = Inr []"
  then show "fallback c d st = (Inr [], st)" by (simp add: fallback_def)
qed

theorem C10_no_division_by_zero_witness:
  "fallback None \<lparr>primary = Inl (Exception (ascii ''no text'')), reader = Inr []\<rparr> init_state
     = (Inr [], init_state)
   \<and> PageRaises (Exception (ascii ''bad page'')) \<in> set [PageNone, PageRaises (Exception (ascii ''bad page''))]"
proof -
  let ?d0 = "\<lparr>primary = Inl (Exception (ascii ''no text'')), reader = Inr []\<rparr>"
  let ?d1 = "\<lparr>primary = Inl (Exception (ascii ''no text'')),
              reader = Inr [PageNone, PageRaises (Exception (ascii ''bad page''))]\<rparr>"
  have f: "fallback None ?d1 init_state = (Inl (Exception (ascii ''bad page'')), snd (fallback None ?d1 init_state))"
    by (simp add: fallback_def is_running_def flag_at_def py_floordiv_def emit_def Let_def)
  have a: "fallback None ?d0 init_state = (Inr [], init_state)"
    using C10_no_division_by_zero[of None ?d0 init_state] by simp
  have b: "PageRaises (Exception (ascii ''bad page'')) \<in> set [PageNone, PageRaises (Exception (ascii ''bad page''))]"
    using C10_no_division_by_zero[of None ?d1 init_state "Exception (ascii ''bad page'')"
        "snd (fallback None ?d1 init_state)"] f
    by simp
  show ?thesis using a b by simp
qed

section \<open>Properties of the run\<close>

lemma format_loop_result:
  "format_loop c diff result added removed st = (Some (r, a, d), st') \<Longrightarrow>
   r = result @ map render_line (filter (\<lambda>line. kind_of line \<noteq> IntralineHint) diff)
   \<and> a = added + count_kind Added diff \<and> d = removed + count_kind Removed diff"
proof (induction diff arbitrary: result added removed st)
  case Nil
  then show ?case by (simp add: count_kind_def)
next
  case (Cons line rest)
  let ?st1 = "snd (is_running c st)"
  from Cons.prems have run: "fst (is_running c st)"
    by (auto simp: case_prod_beta Let_def split: if_splits)
  consider (rem) "kind_of line = Removed" | (add) "kind_of line = Added"
    | (unch) "kind_of line = Unchanged" | (hint) "kind_of line = IntralineHint"
    by (cases "kind_of line") auto
  then show ?case
  proof cases
    case rem
    then have sw: "startswith line (ascii ''- '')"
      by (auto simp: kind_of_def split: if_splits)
    then have "format_loop c rest (result @ [span ''red'' line]) added (removed + 1) ?st1
        = (Some (r, a, d), st')"
      using Cons.prems run by (simp add: case_prod_beta Let_def)
    from Cons.IH[OF this] show ?thesis using rem
      by (simp add: count_kind_def render_line_def)
  next
    case add
    then have sw: "\<not> startswith line (ascii ''- '')" "startswith line (ascii ''+ '')"
      by (auto simp: kind_of_def split: if_splits)
    then have "format_loop c rest (result @ [span ''green'' line]) (added + 1) removed ?st1
        = (Some (r, a, d), st')"
      using Cons.prems run by (simp add: case_prod_beta Let_def)
    from Cons.IH[OF this] show ?thesis using add
      by (simp add: count_kind_def render_line_def)
  next
    case unch
    then have sw: "\<not> startswith line (ascii ''- '')" "\<not> startswith line (ascii ''+ '')"
      "\<not> startswith line (ascii ''? '')"
      by (auto simp: kind_of_def split: if_splits)
    then have "format_loop c rest (result @ [span ''gray'' line]) added removed ?st1
        = (Some (r, a, d), st')"
      using Cons.prems run by (simp add: case_prod_beta Let_def)
    from Cons.IH[OF this] show ?thesis using unch
      by (simp add: count_kind_def render_line_def)
  next
    case hint
    then have sw: "\<not> startswith line (ascii ''- '')" "\<not> startswith line (ascii ''+ '')"
      "startswith line (ascii ''? '')"
      by (auto simp: kind_of_def split: if_splits)
    then have "format_loop c rest result added removed ?st1 = (Some (r, a, d), st')"
      using Cons.prems run by (simp add: case_prod_beta Let_def)
    from Cons.IH[OF this] show ?thesis using hint
      by (simp add: count_kind_def render_line_def)
  qed
qed

lemma format_loop_uncancelled:
  "\<exists>x st'. format_loop None diff result added removed st = (Some x, st')
     \<and> notifications (log st') = notifications (log st)"
proof (induction diff arbitrary: result added removed st)
  case Nil
  then show ?case by simp
next
  case (Cons line rest)
  let ?st1 = "st\<lparr>polls := Suc (polls st), log := log st @ [Poll True]\<rparr>"
  have ir: "is_running None st = (True, ?st1)"
    by (simp add: is_running_def flag_at_def)
  have n1: "notifications (log ?st1) = notifications (log st)"
    by (simp add: notifications_append)
  show ?case
    using Cons.IH[of "result @ [span ''red'' line]" added "removed + 1" ?st1]
      Cons.IH[of "result @ [span ''green'' line]" "added + 1" removed ?st1]
      Cons.IH[of "result @ [span ''gray'' line]" added removed ?st1]
      Cons.IH[of result added removed ?st1] n1
    by (simp add: ir)
qed

lemma good_emit:
  "good st \<Longrightarrow> n = Progress p \<or> n = Status m \<Longrightarrow> good (emit n st)"
  by (auto simp: good_def emit_def clean_def body_log_def no_result_def)

lemma good_init: "good init_state"
  by (simp add: good_def init_state_def clean_def body_log_def no_result_def)

lemma is_running_cases:
  assumes "good st"
  shows "(fst (is_running c st) \<and> good (snd (is_running c st)))
       \<or> (\<not> fst (is_running c st) \<and> stopped c (snd (is_running c st)))"
proof (cases "flag_at c (polls st)")
  case True
  then show ?thesis using assms
    by (auto simp: is_running_def good_def clean_def body_log_def no_result_def)
next
  case False
  then have nf: "\<not> flag_at c (Suc (polls st))"
    by (auto simp: flag_at_def split: option.splits)
  have "log st @ [Poll False] = log st @ replicate (Suc 0) (Poll False)" by simp
  then have "\<exists>es0 k. log st @ [Poll False] = es0 @ replicate (Suc k) (Poll False) \<and> clean es0"
    using assms unfolding good_def by blast
  then show ?thesis using assms False nf
    by (auto simp: is_running_def good_def stopped_def tail_def body_log_def no_result_def)
qed

lemma is_running_stopped:
  assumes "stopped c st"
  shows "\<not> fst (is_running c st) \<and> stopped c (snd (is_running c st))"
proof -
  from assms have f: "\<not> flag_at c (polls st)" by (simp add: stopped_def tail_def)
  then have nf: "\<not> flag_at c (Suc (polls st))"
    by (auto simp: flag_at_def split: option.splits)
  from assms obtain es0 k where l: "log st = es0 @ replicate (Suc k) (Poll False)" "clean es0"
    by (auto simp: stopped_def tail_def)
  have "log st @ [Poll False] = es0 @ replicate (Suc (Suc k)) (Poll False)"
    unfolding l(1) by (simp add: replicate_append_same)
  then have "\<exists>es0 k. log st @ [Poll False] = es0 @ replicate (Suc k) (Poll False) \<and> clean es0"
    using l(2) by blast
  then show ?thesis using assms f nf
    by (auto simp: is_running_def stopped_def tail_def body_log_def no_result_def)
qed

lemma pages_loop_good:
  assumes "good st"
  shows "good (snd (pages_loop c n ps i acc st))
       \<or> (stopped c (snd (pages_loop c n ps i acc st))
           \<and> fst (pages_loop c n ps i acc st) = Inr [])"
  using assms
proof (induction ps arbitrary: i acc st)
  case Nil
  then show ?case by simp
next
  case (Cons p ps)
  let ?st1 = "snd (is_running c st)"
  from is_running_cases[OF Cons.prems, of c]
  show ?case
  proof
    assume a: "\<not> fst (is_running c st) \<and> stopped c ?st1"
    then show ?thesis by (simp add: case_prod_beta)
  next
    assume a: "fst (is_running c st) \<and> good ?st1"
    show ?thesis
    proof (cases "py_floordiv (int i * 40) (int n)")
      case (Inl e)
      then show ?thesis using a by (simp add: case_prod_beta)
    next
      case (Inr q)
      let ?st2 = "emit (Progress (10 + q)) ?st1"
      have g2: "good ?st2" using a by (auto intro: good_emit)
      show ?thesis
      proof (cases "page_text p")
        case (Inl e)
        then show ?thesis using a Inr g2 by (simp add: case_prod_beta Let_def)
      next
        case (Inr t)
        from Cons.IH[OF g2, of "Suc i" "acc @ t"]
        show ?thesis using a Inr \<open>py_floordiv (int i * 40) (int n) = Inr q\<close>
          by (simp add: case_prod_beta Let_def)
      qed
    qed
  qed
qed

lemma extract_text_good:
  assumes "good st"
  shows "good (snd (extract_text c d st))
       \<or> (stopped c (snd (extract_text c d st)) \<and> fst (extract_text c d st) = Inr [])"
proof (cases "primary d")
  case (Inr t)
  then show ?thesis using assms by (simp add: extract_text_def)
next
  case (Inl e)
  show ?thesis
  proof (cases "reader d")
    case e2: (Inl e2)
    then show ?thesis using assms Inl by (simp add: extract_text_def fallback_def)
  next
    case (Inr pages)
    from pages_loop_good[OF assms, of c "length pages" pages 0 "[]"]
    show ?thesis using Inl Inr
      by (auto simp: extract_text_def fallback_def split: prod.splits sum.splits)
  qed
qed

lemma format_loop_good:
  assumes "good st"
  shows "(fst (format_loop c diff result added removed st) \<noteq> None
            \<and> good (snd (format_loop c diff result added removed st)))
       \<or> (fst (format_loop c diff result added removed st) = None
            \<and> stopped c (snd (format_loop c diff result added removed st)))"
  using assms
proof (induction diff arbitrary: result added removed st)
  case Nil
  then show ?case by simp
next
  case (Cons line rest)
  let ?st1 = "snd (is_running c st)"
  from is_running_cases[OF Cons.prems, of c]
  show ?case
  proof
    assume a: "\<not> fst (is_running c st) \<and> stopped c ?st1"
    then show ?thesis by (simp add: case_prod_beta)
  next
    assume a: "fst (is_running c st) \<and> good ?st1"
    then have g: "good ?st1" by simp
    show ?thesis
      using Cons.IH[OF g, of "result @ [span ''red'' line]" added "removed + 1"]
        Cons.IH[OF g, of "result @ [span ''green'' line]" "added + 1" removed]
        Cons.IH[OF g, of "result @ [span ''gray'' line]" added removed]
        Cons.IH[OF g, of result added removed] a
      by (simp add: case_prod_beta)
  qed
qed

lemma compare_and_format_ended:
  assumes "good st"
  shows "ended c (compare_and_format c text1 text2 st)"
proof -
  let ?st4 = "emit (Status msg_formatting) (emit (Progress 80)
      (emit (Status msg_comparing) (emit (Progress 60) st)))"
  let ?diff = "compare (splitlines text1) (splitlines text2)"
  have g4: "good ?st4" using assms by (auto intro!: good_emit)
  from format_loop_good[OF g4, of c ?diff "[]" 0 0]
  show ?thesis
  proof
    assume "fst (format_loop c ?diff [] 0 0 ?st4) = None
          \<and> stopped c (snd (format_loop c ?diff [] 0 0 ?st4))"
    then show ?thesis
      by (auto simp: compare_and_format_def Let_def ended_def stopped_def split: prod.splits option.splits)
  next
    assume a: "fst (format_loop c ?diff [] 0 0 ?st4) \<noteq> None
          \<and> good (snd (format_loop c ?diff [] 0 0 ?st4))"
    then show ?thesis
      by (auto simp: compare_and_format_def Let_def ended_def good_def emit_def clean_def
          body_log_def split: prod.splits option.splits)
  qed
qed

lemma run_body_unfold:
  "run_body c ev w st =
     (let x1 = extract_text c (open_pdf ev (file1 w)) (emit (status_extracting ev (file1 w)) st) in
      case fst x1 of
        Inl e \<Rightarrow> (Inl e, snd x1)
      | Inr text1 \<Rightarrow>
          if \<not> fst (is_running c (snd x1)) then (Inr (), snd (is_running c (snd x1)))
          else
            (let x2 = extract_text c (open_pdf ev (file2 w))
                        (emit (status_extracting ev (file2 w))
                           (emit (Progress 30) (snd (is_running c (snd x1)))))
             in case fst x2 of
                  Inl e \<Rightarrow> (Inl e, snd x2)
                | Inr text2 \<Rightarrow>
                    if \<not> fst (is_running c (snd x2)) then (Inr (), snd (is_running c (snd x2)))
                    else compare_and_format c text1 text2 (snd (is_running c (snd x2)))))"
  unfolding run_body_def Let_def
  by (auto simp: case_prod_beta split: sum.splits prod.splits)

lemma run_body_ended: "ended c (run_body c ev w init_state)"
proof -
  let ?st1 = "emit (status_extracting ev (file1 w)) init_state"
  let ?x1 = "extract_text c (open_pdf ev (file1 w)) ?st1"
  let ?st3 = "snd (is_running c (snd ?x1))"
  let ?st5 = "emit (status_extracting ev (file2 w)) (emit (Progress 30) ?st3)"
  let ?x2 = "extract_text c (open_pdf ev (file2 w)) ?st5"
  let ?st7 = "snd (is_running c (snd ?x2))"
  have g1: "good ?st1" by (auto intro!: good_emit good_init simp: status_extracting_def)
  from extract_text_good[OF g1, of c "open_pdf ev (file1 w)"]
  show ?thesis
  proof
    assume a: "stopped c (snd ?x1) \<and> fst ?x1 = Inr []"
    from is_running_stopped[of c "snd ?x1"] a
    show ?thesis
      by (simp add: run_body_unfold Let_def ended_def stopped_def)
  next
    assume gx1: "good (snd ?x1)"
    show ?thesis
    proof (cases "fst ?x1")
      case (Inl e)
      then show ?thesis using gx1
        by (simp add: run_body_unfold Let_def ended_def)
    next
      case (Inr text1)
      from is_running_cases[OF gx1, of c]
      show ?thesis
      proof
        assume "\<not> fst (is_running c (snd ?x1)) \<and> stopped c ?st3"
        then show ?thesis using Inr
          by (simp add: run_body_unfold Let_def ended_def stopped_def)
      next
        assume b: "fst (is_running c (snd ?x1)) \<and> good ?st3"
        have g5: "good ?st5" using b by (auto intro!: good_emit simp: status_extracting_def)
        have rb: "run_body c ev w init_state =
            (case fst ?x2 of
               Inl e \<Rightarrow> (Inl e, snd ?x2)
             | Inr text2 \<Rightarrow>
                 (if \<not> fst (is_running c (snd ?x2)) then (Inr (), ?st7)
                  else compare_and_format c text1 text2 ?st7))"
          using Inr b by (simp add: run_body_unfold Let_def)
        from extract_text_good[OF g5, of c "open_pdf ev (file2 w)"]
        show ?thesis
        proof
          assume a: "stopped c (snd ?x2) \<and> fst ?x2 = Inr []"
          from is_running_stopped[of c "snd ?x2"] a
          show ?thesis unfolding rb
            by (simp add: ended_def stopped_def)
        next
          assume gx2: "good (snd ?x2)"
          show ?thesis
          proof (cases "fst ?x2")
            case (Inl e)
            then show ?thesis using gx2 unfolding rb
              by (simp add: ended_def)
          next
            case i2: (Inr text2)
            from is_running_cases[OF gx2, of c]
            show ?thesis
            proof
              assume "\<not> fst (is_running c (snd ?x2)) \<and> stopped c ?st7"
              then show ?thesis using i2 unfolding rb
                by (simp add: ended_def stopped_def)
            next
              assume c7: "fst (is_running c (snd ?x2)) \<and> good ?st7"
              then have "ended c (compare_and_format c text1 text2 ?st7)"
                using compare_and_format_ended by blast
              then show ?thesis using i2 c7 unfolding rb
                by simp
            qed
          qed
        qed
      qed
    qed
  qed
qed

lemma notifications_mem: "n \<in> set (notifications es) \<longleftrightarrow> Emit n \<in> set es"
  by (induction es rule: notifications.induct) auto

lemma notifications_emit [simp]:
  "notifications (log (emit n st)) = notifications (log st) @ [n]"
  by (simp add: emit_def notifications_append)

lemma notifications_is_running [simp]:
  "notifications (log (snd (is_running c st))) = notifications (log st)"
  by (simp add: is_running_def Let_def notifications_append)

lemma is_running_None [simp]: "fst (is_running None st)"
  by (simp add: is_running_def flag_at_def)

lemma extract_text_None_ok:
  assumes "extracts d t"
  shows "fst (extract_text None d st) = Inr t"
    and "notifications (log (snd (extract_text None d st))) =
          notifications (log st) @ fallback_progress d"
proof -
  have "fst (extract_text None d st) = Inr t \<and>
     notifications (log (snd (extract_text None d st))) =
          notifications (log st) @ fallback_progress d"
  proof (cases "primary d")
    case (Inr t')
    then show ?thesis using assms
      by (auto simp: extracts_def extract_text_def fallback_progress_def)
  next
    case (Inl e)
    then obtain pages where p: "reader d = Inr pages" "\<forall>p\<in>set pages. \<not> raises p"
      "t = concat (map page_str pages)"
      using assms by (auto simp: extracts_def)
    show ?thesis
    proof (cases "pages = []")
      case True
      then show ?thesis using Inl p
        by (simp add: extract_text_def fallback_def fallback_progress_def)
    next
      case False
      then have n: "length pages \<noteq> 0" by simp
      from pages_loop_complete[OF p(2) n, of 0 "[]" st]
      show ?thesis using Inl p
        by (simp add: extract_text_fallback_fst extract_text_fallback_snd fallback_progress_def)
    qed
  qed
  then show "fst (extract_text None d st) = Inr t"
    and "notifications (log (snd (extract_text None d st))) =
          notifications (log st) @ fallback_progress d"
    by auto
qed

lemma extract_text_None_fail:
  assumes "both_fail d"
  shows "\<exists>e. fst (extract_text None d st) = Inl e"
proof -
  from assms obtain e where e: "primary d = Inl e" by (auto simp: both_fail_def)
  show ?thesis
  proof (cases "reader d")
    case (Inl e2)
    then show ?thesis using e by (simp add: extract_text_def fallback_def)
  next
    case (Inr pages)
    then have "\<exists>p\<in>set pages. raises p" using assms by (simp add: both_fail_def)
    from split_list_first_prop[OF this] obtain pre p post where
      sp: "pages = pre @ p # post" "raises p" "\<forall>q\<in>set pre. \<not> raises q" by blast
    from sp(2) obtain e2 where p: "p = PageRaises e2" by (cases p) auto
    have n: "length pages \<noteq> 0" using sp(1) by simp
    from pages_loop_raise[OF sp(3) n, of e2 post 0 "[]" st]
    show ?thesis using e Inr sp(1) p by (simp add: extract_text_fallback_fst)
  qed
qed

lemma extract_text_error_source:
  assumes "fst (extract_text c d st) = Inl e"
  shows "both_fail d"
proof (cases "primary d")
  case (Inr t)
  then show ?thesis using assms by (simp add: extract_text_def)
next
  case (Inl e1)
  show ?thesis
  proof (cases "reader d")
    case e2: (Inl e2)
    then show ?thesis using Inl by (simp add: both_fail_def)
  next
    case (Inr pages)
    show ?thesis
    proof (cases "pages = []")
      case True
      then show ?thesis using assms Inl Inr by (simp add: extract_text_fallback_fst)
    next
      case False
      then have n: "length pages \<noteq> 0" by simp
      from assms Inl Inr obtain e2 st' where
        "pages_loop c (length pages) pages 0 [] st = (Inl e2, st')"
        by (cases "pages_loop c (length pages) pages 0 [] st")
           (auto simp: extract_text_fallback_fst split: sum.splits)
      from pages_loop_error_source[OF this n] have "PageRaises e2 \<in> set pages" .
      then have "\<exists>p\<in>set pages. raises p" by force
      then show ?thesis using Inl Inr by (simp add: both_fail_def)
    qed
  qed
qed

lemma extracts_or_both_fail: "both_fail d \<or> (\<exists>t. extracts d t)"
  by (cases "primary d"; cases "reader d") (auto simp: both_fail_def extracts_def)

lemma compare_and_format_None:
  "fst (compare_and_format None text1 text2 st) = Inr ()"
  "notifications (log (snd (compare_and_format None text1 text2 st))) =
     notifications (log st) @
     [Progress 60, Status msg_comparing, Progress 80, Status msg_formatting,
      Result (report (compare (splitlines text1) (splitlines text2))),
      Progress 100,
      Status (msg_done (length (splitlines text1)) (length (splitlines text2)))]"
proof -
  let ?st4 = "emit (Status msg_formatting) (emit (Progress 80)
      (emit (Status msg_comparing) (emit (Progress 60) st)))"
  let ?diff = "compare (splitlines text1) (splitlines text2)"
  from format_loop_uncancelled[of ?diff "[]" 0 0 ?st4] obtain x st5 where
    fl: "format_loop None ?diff [] 0 0 ?st4 = (Some x, st5)"
    and n5: "notifications (log st5) = notifications (log ?st4)" by blast
  obtain r a d where x: "x = (r, a, d)" by (cases x) auto
  from format_loop_result[OF fl[unfolded x]]
  have rad: "r = map render_line (filter (\<lambda>line. kind_of line \<noteq> IntralineHint) ?diff)"
    "a = count_kind Added ?diff" "d = count_kind Removed ?diff" by auto
  have cf: "compare_and_format None text1 text2 st =
     (Inr (), emit (Status (msg_done (length (splitlines text1)) (length (splitlines text2))))
        (emit (Progress 100) (emit (Result (report ?diff)) st5)))"
    unfolding compare_and_format_def Let_def fl x
    by (simp add: rad report_def)
  show "fst (compare_and_format None text1 text2 st) = Inr ()" by (simp add: cf)
  show "notifications (log (snd (compare_and_format None text1 text2 st))) =
     notifications (log st) @
     [Progress 60, Status msg_comparing, Progress 80, Status msg_formatting,
      Result (report (compare (splitlines text1) (splitlines text2))),
      Progress 100,
      Status (msg_done (length (splitlines text1)) (length (splitlines text2)))]"
    by (simp add: cf n5)
qed

lemma run_body_None_ok:
  assumes "extracts (open_pdf ev (file1 w)) text1" and "extracts (open_pdf ev (file2 w)) text2"
  shows "fst (run_body None ev w st) = Inr ()"
    and "notifications (log (snd (run_body None ev w st))) =
     notifications (log st) @ [status_extracting ev (file1 w)]
     @ fallback_progress (open_pdf ev (file1 w))
     @ [Progress 30, status_extracting ev (file2 w)]
     @ fallback_progress (open_pdf ev (file2 w))
     @ [Progress 60, Status msg_comparing, Progress 80, Status msg_formatting,
        Result (report (compare (splitlines text1) (splitlines text2))),
        Progress 100,
        Status (msg_done (length (splitlines text1)) (length (splitlines text2)))]"
proof -
  let ?st1 = "emit (status_extracting ev (file1 w)) st"
  let ?x1 = "extract_text None (open_pdf ev (file1 w)) ?st1"
  let ?st3 = "snd (is_running None (snd ?x1))"
  let ?st5 = "emit (status_extracting ev (file2 w)) (emit (Progress 30) ?st3)"
  let ?x2 = "extract_text None (open_pdf ev (file2 w)) ?st5"
  let ?st7 = "snd (is_running None (snd ?x2))"
  note e1 = extract_text_None_ok[OF assms(1), of ?st1]
  note e2 = extract_text_None_ok[OF assms(2), of ?st5]
  have rb: "run_body None ev w st = compare_and_format None text1 text2 ?st7"
    by (simp add: run_body_unfold Let_def e1(1) e2(1))
  show "fst (run_body None ev w st) = Inr ()"
    unfolding rb by (rule compare_and_format_None(1))
  show "notifications (log (snd (run_body None ev w st))) =
     notifications (log st) @ [status_extracting ev (file1 w)]
     @ fallback_progress (open_pdf ev (file1 w))
     @ [Progress 30, status_extracting ev (file2 w)]
     @ fallback_progress (open_pdf ev (file2 w))
     @ [Progress 60, Status msg_comparing, Progress 80, Status msg_formatting,
        Result (report (compare (splitlines text1) (splitlines text2))),
        Progress 100,
        Status (msg_done (length (splitlines text1)) (length (splitlines text2)))]"
    unfolding rb compare_and_format_None(2)
    by (simp add: e1(2) e2(2))
qed

lemma run_body_None_fail:
  assumes "both_fail (open_pdf ev (file1 w)) \<or> both_fail (open_pdf ev (file2 w))"
  shows "\<exists>e. fst (run_body None ev w st) = Inl e"
proof (cases "both_fail (open_pdf ev (file1 w))")
  case True
  from extract_text_None_fail[OF True, of "emit (status_extracting ev (file1 w)) st"]
  show ?thesis by (auto simp: run_body_unfold Let_def)
next
  case False
  then obtain t where t: "extracts (open_pdf ev (file1 w)) t"
    using extracts_or_both_fail by blast
  from False assms have b2: "both_fail (open_pdf ev (file2 w))" by simp
  let ?st1 = "emit (status_extracting ev (file1 w)) st"
  let ?x1 = "extract_text None (open_pdf ev (file1 w)) ?st1"
  let ?st5 = "emit (status_extracting ev (file2 w))
      (emit (Progress 30) (snd (is_running None (snd ?x1))))"
  from extract_text_None_fail[OF b2, of ?st5] obtain e where
    "fst (extract_text None (open_pdf ev (file2 w)) ?st5) = Inl e" by blast
  then show ?thesis
    using extract_text_None_ok(1)[OF t, of ?st1]
    by (simp add: run_body_unfold Let_def)
qed

lemma run_log:
  "log (run c ev w) =
     (case fst (run_body c ev w init_state) of
        Inl e \<Rightarrow> log (snd (run_body c ev w init_state))
                  @ [Emit (Error (msg_error @ str_exn e)), Emit Finished]
      | Inr u \<Rightarrow> log (snd (run_body c ev w init_state)) @ [Emit Finished])"
  by (simp add: run_def emit_def split: prod.splits sum.splits)

lemma after_replicate:
  assumes "replicate n (Poll False) @ [Emit y] = pre @ Poll False # post"
  shows "notifications post = [y]"
  using assms
proof (induction n arbitrary: pre)
  case 0
  then show ?case by (cases pre) auto
next
  case (Suc n)
  show ?case
  proof (cases pre)
    case Nil
    then have "post = replicate n (Poll False) @ [Emit y]" using Suc.prems by simp
    then show ?thesis by (induction n arbitrary: post) (auto simp: notifications_append)
  next
    case (Cons p pre')
    then have "replicate n (Poll False) @ [Emit y] = pre' @ Poll False # post"
      using Suc.prems by auto
    then show ?thesis by (rule Suc.IH)
  qed
qed

lemma after_poll_false:
  assumes "clean es0" and "es0 @ replicate n (Poll False) @ [Emit y] = pre @ Poll False # post"
  shows "notifications post = [y]"
  using assms
proof (induction es0 arbitrary: pre)
  case Nil
  then show ?case using after_replicate by simp
next
  case (Cons e es0)
  show ?case
  proof (cases pre)
    case Nil
    then show ?thesis using Cons.prems by (simp add: clean_def)
  next
    case (Cons p pre')
    then have "es0 @ replicate n (Poll False) @ [Emit y] = pre' @ Poll False # post"
      using Cons.prems(2) by auto
    moreover have "clean es0" using Cons.prems(1) by (simp add: clean_def)
    ultimately show ?thesis by (rule Cons.IH[rotated])
  qed
qed

lemma filter_notifications_none:
  "(\<forall>n. P n \<longrightarrow> Emit n \<notin> set es) \<Longrightarrow> filter P (notifications es) = []"
  by (auto simp: filter_empty_conv notifications_mem)

text \<open>
  Claim C7.  For every invocation, whatever the documents and whenever the flag is
  cleared, the notifications end with finished and finished occurs nowhere before.
\<close>

theorem C7_finished_once_last:
  "\<exists>pre. notifications (log (run c ev w)) = pre @ [Finished] \<and> Finished \<notin> set pre"
proof -
  let ?b = "run_body c ev w init_state"
  have e: "ended c ?b" by (rule run_body_ended)
  have nf: "Emit Finished \<notin> set (log (snd ?b))"
    using e by (cases ?b; cases "fst ?b") (auto simp: ended_def good_def body_log_def)
  show ?thesis
  proof (cases "fst ?b")
    case (Inl ex)
    then have "notifications (log (run c ev w)) =
        (notifications (log (snd ?b)) @ [Error (msg_error @ str_exn ex)]) @ [Finished]"
      by (simp add: run_log notifications_append)
    moreover have "Finished \<notin> set (notifications (log (snd ?b)) @ [Error (msg_error @ str_exn ex)])"
      using nf by (simp add: notifications_mem)
    ultimately show ?thesis by blast
  next
    case (Inr u)
    then have "notifications (log (run c ev w)) = notifications (log (snd ?b)) @ [Finished]"
      by (simp add: run_log notifications_append)
    moreover have "Finished \<notin> set (notifications (log (snd ?b)))"
      using nf by (simp add: notifications_mem)
    ultimately show ?thesis by blast
  qed
qed

text \<open>
  Claim C3, as the code has it.  In every execution, after a checkpoint has read the
  flag as cleared the only notification still emitted is finished; such an execution
  emits no result and no error at all.  When the flag is cleared before the first
  checkpoint, the run emits the first status and then finished, with one exception:
  if the primary strategy and \<^verbatim>\<open>PdfReader\<close> both raise on the first document, no
  checkpoint is reached and the error notification is emitted before finished.
\<close>

theorem C3_cancel_short_circuits:
  "(\<forall>pre post. log (run c ev w) = pre @ Poll False # post \<longrightarrow> notifications post = [Finished])
   \<and> (Poll False \<in> set (log (run c ev w)) \<longrightarrow>
        filter is_result (notifications (log (run c ev w))) = []
        \<and> filter is_error (notifications (log (run c ev w))) = [])
   \<and> notifications (log (run (Some 0) ev w)) =
        [status_extracting ev (file1 w)]
        @ (case (primary (open_pdf ev (file1 w)), reader (open_pdf ev (file1 w))) of
             (Inl e1, Inl e2) \<Rightarrow> [Error (msg_error @ msg_extraction_error @ str_exn e2)]
           | _ \<Rightarrow> [])
        @ [Finished]"
proof (intro conjI allI impI)
  let ?b = "run_body c ev w init_state"
  have e: "ended c ?b" by (rule run_body_ended)
  have cases: "(clean (log (snd ?b))) \<or> (stopped c (snd ?b) \<and> (\<exists>u. fst ?b = Inr u))"
    using e by (cases ?b; cases "fst ?b") (auto simp: ended_def good_def)
  {
    fix pre post
    assume l: "log (run c ev w) = pre @ Poll False # post"
    then have pf: "Poll False \<in> set (log (run c ev w))" by simp
    have nclean: "\<not> clean (log (snd ?b))"
      using pf by (auto simp: run_log clean_def split: sum.splits)
    with cases obtain u where st: "stopped c (snd ?b)" and u: "fst ?b = Inr u" by blast
    from st obtain es0 k where
      es: "log (snd ?b) = es0 @ replicate (Suc k) (Poll False)" "clean es0"
      by (auto simp: stopped_def tail_def)
    have "es0 @ replicate (Suc k) (Poll False) @ [Emit Finished] = pre @ Poll False # post"
      using l u es(1) by (simp add: run_log)
    from after_poll_false[OF es(2) this]
    show "notifications post = [Finished]" .
  }
  {
    assume pf: "Poll False \<in> set (log (run c ev w))"
    have nclean: "\<not> clean (log (snd ?b))"
      using pf by (auto simp: run_log clean_def split: sum.splits)
    with cases obtain u where st: "stopped c (snd ?b)" and u: "fst ?b = Inr u" by blast
    have l: "notifications (log (run c ev w)) = notifications (log (snd ?b)) @ [Finished]"
      using u by (simp add: run_log notifications_append)
    have "filter is_result (notifications (log (snd ?b))) = []"
      by (rule filter_notifications_none)
         (use st in \<open>auto simp: stopped_def no_result_def elim: is_result.elims\<close>)
    moreover have "filter is_error (notifications (log (snd ?b))) = []"
      by (rule filter_notifications_none)
         (use st in \<open>auto simp: stopped_def body_log_def elim: is_error.elims\<close>)
    ultimately show "filter is_result (notifications (log (run c ev w))) = []"
      and "filter is_error (notifications (log (run c ev w))) = []"
      by (simp_all add: l)
  }
  let ?d = "open_pdf ev (file1 w)"
  show "notifications (log (run (Some 0) ev w)) =
        [status_extracting ev (file1 w)]
        @ (case (primary ?d, reader ?d) of
             (Inl e1, Inl e2) \<Rightarrow> [Error (msg_error @ msg_extraction_error @ str_exn e2)]
           | _ \<Rightarrow> [])
        @ [Finished]"
  proof (cases "primary ?d")
    case (Inr t)
    then show ?thesis
      by (simp add: run_def run_body_unfold Let_def extract_text_def is_running_def flag_at_def
          emit_def init_state_def)
  next
    case (Inl e1)
    show ?thesis
    proof (cases "reader ?d")
      case e2: (Inl e2)
      then show ?thesis using Inl
        by (simp add: run_def run_body_unfold Let_def extract_text_def fallback_def emit_def
            init_state_def)
    next
      case (Inr pages)
      then show ?thesis using Inl
        by (cases pages)
           (simp_all add: run_def run_body_unfold Let_def extract_text_def fallback_def
              is_running_def flag_at_def emit_def init_state_def)
    qed
  qed
qed

text \<open>
  Claim C2, as the code has it.  On a run that is not cancelled and in which both
  extractions succeed, the notifications are exactly: the status before the first
  extraction, the progress values of its fallback (none on the primary path),
  progress 30, the status before the second extraction, the progress values of its
  fallback, progress 60, the status before comparison, progress 80, the status before
  formatting, the result payload, progress 100, the final status with the two line
  counts, and finished.  The result comes before progress 100 and the final status.
\<close>

theorem C2_success_order:
  assumes "extracts (open_pdf ev (file1 w)) text1" and "extracts (open_pdf ev (file2 w)) text2"
  shows "notifications (log (run None ev w)) =
     [status_extracting ev (file1 w)]
     @ fallback_progress (open_pdf ev (file1 w))
     @ [Progress 30, status_extracting ev (file2 w)]
     @ fallback_progress (open_pdf ev (file2 w))
     @ [Progress 60, Status msg_comparing, Progress 80, Status msg_formatting,
        Result (report (compare (splitlines text1) (splitlines text2))),
        Progress 100,
        Status (msg_done (length (splitlines text1)) (length (splitlines text2))),
        Finished]"
  using run_body_None_ok[OF assms, of init_state]
  by (simp add: run_log notifications_append init_state_def)

theorem C2_success_order_witness:
  "notifications (log (run None example_env \<lparr>file1 = ascii ''a.pdf'', file2 = ascii ''b.pdf''\<rparr>)) =
     [Status (msg_extracting @ ascii ''a.pdf'' @ ascii ''...''),
      Progress 30, Status (msg_extracting @ ascii ''b.pdf'' @ ascii ''...''),
      Progress 10, Progress 30,
      Progress 60, Status msg_comparing, Progress 80, Status msg_formatting,
      Result (report (compare (splitlines []) (splitlines (ascii ''x'')))),
      Progress 100,
      Status (msg_done (length (splitlines [])) (length (splitlines (ascii ''x'')))),
      Finished]"
proof -
  let ?w = "\<lparr>file1 = ascii ''a.pdf'', file2 = ascii ''b.pdf''\<rparr>"
  have ne: "ascii ''b.pdf'' \<noteq> ascii ''a.pdf''" by (simp add: ascii_def)
  have 1: "extracts (open_pdf example_env (file1 ?w)) []"
    by (simp add: extracts_def example_env_def)
  have 2: "extracts (open_pdf example_env (file2 ?w)) (ascii ''x'')"
    by (simp add: extracts_def example_env_def ne)
  have up: "[0..<2] = [0, 1]" by (simp add: upt_rec)
  show ?thesis
    using C2_success_order[OF 1 2]
    by (simp add: example_env_def ne fallback_progress_def status_extracting_def up)
qed

text \<open>
  The order of the claim (progress 100 and the final status before the result) does
  not occur: on two empty documents the result is the eighth notification.
\<close>

theorem C2_counterexample:
  "notifications (log (run None example_env \<lparr>file1 = ascii ''a.pdf'', file2 = ascii ''a.pdf''\<rparr>)) =
     [Status (msg_extracting @ ascii ''a.pdf'' @ ascii ''...''),
      Progress 30, Status (msg_extracting @ ascii ''a.pdf'' @ ascii ''...''),
      Progress 60, Status msg_comparing, Progress 80, Status msg_formatting,
      Result (summary_line 0 0),
      Progress 100,
      Status (msg_done 0 0),
      Finished]"
proof -
  let ?w = "\<lparr>file1 = ascii ''a.pdf'', file2 = ascii ''a.pdf''\<rparr>"
  have 1: "extracts (open_pdf example_env (file1 ?w)) []"
    by (simp add: extracts_def example_env_def)
  have 2: "extracts (open_pdf example_env (file2 ?w)) []"
    by (simp add: extracts_def example_env_def)
  have c: "compare [] [] = []" by code_simp
  have r: "report (compare [] []) = summary_line 0 0"
    by (simp add: c report_def count_kind_def)
  show ?thesis
    using run_body_None_ok[OF 1 2, of init_state]
    by (simp add: run_log notifications_append init_state_def r example_env_def
        fallback_progress_def status_extracting_def splitlines_def)
qed

theorem C3_cancel_short_circuits_witness:
  "notifications (log (run (Some 0) example_env \<lparr>file1 = ascii ''b.pdf'', file2 = ascii ''a.pdf''\<rparr>))
     = [Status (msg_extracting @ ascii ''b.pdf'' @ ascii ''...''), Finished]
   \<and> log (run (Some 0) example_env \<lparr>file1 = ascii ''b.pdf'', file2 = ascii ''a.pdf''\<rparr>)
     = [Emit (Status (msg_extracting @ ascii ''b.pdf'' @ ascii ''...''))]
       @ Poll False # [Poll False, Emit Finished]
   \<and> notifications [Poll False, Emit Finished] = [Finished]"
proof -
  let ?w = "\<lparr>file1 = ascii ''b.pdf'', file2 = ascii ''a.pdf''\<rparr>"
  have ne: "ascii ''b.pdf'' \<noteq> ascii ''a.pdf''" by (simp add: ascii_def)
  have l: "log (run (Some 0) example_env ?w)
     = [Emit (Status (msg_extracting @ ascii ''b.pdf'' @ ascii ''...''))]
       @ Poll False # [Poll False, Emit Finished]"
    by (simp add: run_def run_body_unfold Let_def extract_text_def fallback_def
        is_running_def flag_at_def emit_def init_state_def example_env_def ne
        status_extracting_def)
  note t = C3_cancel_short_circuits[of "Some 0" example_env ?w]
  from t l have a: "notifications [Poll False, Emit Finished] = [Finished]" by blast
  from t have b: "notifications (log (run (Some 0) example_env ?w))
     = [Status (msg_extracting @ ascii ''b.pdf'' @ ascii ''...''), Finished]"
    by (simp add: example_env_def ne status_extracting_def)
  show ?thesis using a b l by blast
qed

text \<open>
  Cancelling before any progress notification does not exclude an error: the flag is
  cleared from the start, the first file cannot be opened, and the error is emitted.
\<close>

theorem C3_counterexample:
  "notifications (log (run (Some 0) example_env \<lparr>file1 = ascii ''c.pdf'', file2 = ascii ''a.pdf''\<rparr>))
     = [Status (msg_extracting @ ascii ''c.pdf'' @ ascii ''...''),
        Error (msg_error @ msg_extraction_error @ ascii ''no such file''),
        Finished]"
proof -
  have ne: "ascii ''c.pdf'' \<noteq> ascii ''a.pdf''" "ascii ''c.pdf'' \<noteq> ascii ''b.pdf''"
    by (simp_all add: ascii_def)
  show ?thesis
    by (simp add: run_def run_body_unfold Let_def extract_text_def fallback_def
        emit_def init_state_def example_env_def ne status_extracting_def)
qed

text \<open>
  Claim C4.  Whenever the formatting loop completes, the added count is the number of
  lines of kind Added, the removed count the number of lines of kind Removed, and the
  rendered lines are those of the lines that are not intraline hints, in order; without
  cancellation the loop always completes; and the result payload the run emits is these
  rendered lines followed by the summary line with these two counts.
\<close>

theorem C4_counts_and_hints:
  "(fst (format_loop c diff [] 0 0 st) = Some (result, added, removed) \<longrightarrow>
      added = count_kind Added diff \<and> removed = count_kind Removed diff
      \<and> result = map render_line (filter (\<lambda>line. kind_of line \<noteq> IntralineHint) diff))
   \<and> fst (format_loop None diff [] 0 0 st) =
        Some (map render_line (filter (\<lambda>line. kind_of line \<noteq> IntralineHint) diff),
              count_kind Added diff, count_kind Removed diff)
   \<and> filter is_result (notifications (log (snd (compare_and_format None text1 text2 init_state))))
       = [Result (join (ascii ''<br>'')
            (map render_line
               (filter (\<lambda>line. kind_of line \<noteq> IntralineHint)
                  (compare (splitlines text1) (splitlines text2)))
             @ [summary_line (count_kind Added (compare (splitlines text1) (splitlines text2)))
                  (count_kind Removed (compare (splitlines text1) (splitlines text2)))]))]"
proof (intro conjI impI)
  assume a: "fst (format_loop c diff [] 0 0 st) = Some (result, added, removed)"
  then obtain st' where "format_loop c diff [] 0 0 st = (Some (result, added, removed), st')"
    by (cases "format_loop c diff [] 0 0 st") auto
  from format_loop_result[OF this]
  show "added = count_kind Added diff" "removed = count_kind Removed diff"
    "result = map render_line (filter (\<lambda>line. kind_of line \<noteq> IntralineHint) diff)"
    by auto
next
  from format_loop_uncancelled[of diff "[]" 0 0 st] obtain x st' where
    fl: "format_loop None diff [] 0 0 st = (Some x, st')" by blast
  obtain r a d where x: "x = (r, a, d)" by (cases x) auto
  from format_loop_result[OF fl[unfolded x]] fl x
  show "fst (format_loop None diff [] 0 0 st) =
        Some (map render_line (filter (\<lambda>line. kind_of line \<noteq> IntralineHint) diff),
              count_kind Added diff, count_kind Removed diff)"
    by simp
next
  show "filter is_result (notifications (log (snd (compare_and_format None text1 text2 init_state))))
       = [Result (join (ascii ''<br>'')
            (map render_line
               (filter (\<lambda>line. kind_of line \<noteq> IntralineHint)
                  (compare (splitlines text1) (splitlines text2)))
             @ [summary_line (count_kind Added (compare (splitlines text1) (splitlines text2)))
                  (count_kind Removed (compare (splitlines text1) (splitlines text2)))]))]"
    by (simp add: compare_and_format_None(2) init_state_def report_def)
qed

theorem C4_counts_and_hints_witness:
  "fst (format_loop None [ascii ''- a'', ascii ''? ^'', ascii ''+ b'', ascii ''  c''] [] 0 0 init_state)
     = Some ([span ''red'' (ascii ''- a''), span ''green'' (ascii ''+ b''),
              span ''gray'' (ascii ''  c'')], 1, 1)"
proof -
  have k: "kind_of (ascii ''- a'') = Removed" "kind_of (ascii ''? ^'') = IntralineHint"
    "kind_of (ascii ''+ b'') = Added" "kind_of (ascii ''  c'') = Unchanged"
    by (simp_all add: kind_of_def startswith_def ascii_def)
  let ?diff = "[ascii ''- a'', ascii ''? ^'', ascii ''+ b'', ascii ''  c'']"
  have "fst (format_loop None ?diff [] 0 0 init_state) =
        Some (map render_line (filter (\<lambda>line. kind_of line \<noteq> IntralineHint) ?diff),
              count_kind Added ?diff, count_kind Removed ?diff)"
    using C4_counts_and_hints by blast
  then show ?thesis by (simp add: k count_kind_def render_line_def)
qed

text \<open>
  Claim C6.  \<open>extract_text\<close> raises only on a document on which the primary strategy
  fails and the fallback fails too (\<^verbatim>\<open>PdfReader\<close> or a page raises).  Whenever an
  extraction raises during a run, the run emits exactly one error, with a non-empty
  message, no result, and finished exactly once; without cancellation this is the case
  as soon as both strategies fail on one of the two documents.
\<close>

theorem C6_extraction_error:
  "(fst (extract_text c d st) = Inl e \<longrightarrow> both_fail d)
   \<and> (fst (run_body c ev w init_state) = Inl e \<longrightarrow>
        filter is_error (notifications (log (run c ev w))) = [Error (msg_error @ str_exn e)]
        \<and> msg_error @ str_exn e \<noteq> []
        \<and> filter is_result (notifications (log (run c ev w))) = []
        \<and> count_list (notifications (log (run c ev w))) Finished = 1)
   \<and> (both_fail (open_pdf ev (file1 w)) \<or> both_fail (open_pdf ev (file2 w)) \<longrightarrow>
        (\<exists>m. m \<noteq> [] \<and> filter is_error (notifications (log (run None ev w))) = [Error m])
        \<and> filter is_result (notifications (log (run None ev w))) = []
        \<and> count_list (notifications (log (run None ev w))) Finished = 1)"
proof -
  have A: "filter is_error (notifications (log (run c ev w))) = [Error (msg_error @ str_exn e)]
        \<and> msg_error @ str_exn e \<noteq> []
        \<and> filter is_result (notifications (log (run c ev w))) = []
        \<and> count_list (notifications (log (run c ev w))) Finished = 1"
    if f: "fst (run_body c ev w init_state) = Inl e" for c e
  proof -
    let ?b = "run_body c ev w init_state"
    have "ended c ?b" by (rule run_body_ended)
    then have g: "good (snd ?b)" using f by (cases ?b) (auto simp: ended_def)
    have l: "notifications (log (run c ev w)) =
        notifications (log (snd ?b)) @ [Error (msg_error @ str_exn e), Finished]"
      using f by (simp add: run_log notifications_append)
    have 1: "filter is_error (notifications (log (snd ?b))) = []"
      by (rule filter_notifications_none)
         (use g in \<open>auto simp: good_def body_log_def elim: is_error.elims\<close>)
    have 2: "filter is_result (notifications (log (snd ?b))) = []"
      by (rule filter_notifications_none)
         (use g in \<open>auto simp: good_def no_result_def elim: is_result.elims\<close>)
    have 3: "count_list (notifications (log (snd ?b))) Finished = 0"
      using g by (simp add: good_def body_log_def notifications_mem)
    show ?thesis using 1 2 3 by (simp add: l msg_error_def)
  qed
  show ?thesis
  proof (intro conjI impI)
    assume "fst (extract_text c d st) = Inl e"
    then show "both_fail d" by (rule extract_text_error_source)
  next
    assume f: "fst (run_body c ev w init_state) = Inl e"
    from A[OF f]
    show "filter is_error (notifications (log (run c ev w))) = [Error (msg_error @ str_exn e)]"
      "msg_error @ str_exn e \<noteq> []"
      "filter is_result (notifications (log (run c ev w))) = []"
      "count_list (notifications (log (run c ev w))) Finished = 1"
      by auto
  next
    assume "both_fail (open_pdf ev (file1 w)) \<or> both_fail (open_pdf ev (file2 w))"
    from run_body_None_fail[OF this, of init_state] obtain e' where
      "fst (run_body None ev w init_state) = Inl e'" by blast
    from A[OF this]
    show "\<exists>m. m \<noteq> [] \<and> filter is_error (notifications (log (run None ev w))) = [Error m]"
      "filter is_result (notifications (log (run None ev w))) = []"
      "count_list (notifications (log (run None ev w))) Finished = 1"
      by auto
  qed
qed

theorem C6_extraction_error_witness:
  "fst (extract_text None (open_pdf example_env (ascii ''c.pdf'')) init_state)
     = Inl (Exception (msg_extraction_error @ ascii ''no such file''))
   \<and> fst (run_body None example_env \<lparr>file1 = ascii ''b.pdf'', file2 = ascii ''c.pdf''\<rparr> init_state)
     = Inl (Exception (msg_extraction_error @ ascii ''no such file''))
   \<and> both_fail (open_pdf example_env (ascii ''c.pdf''))
   \<and> filter is_error (notifications (log (run None example_env
        \<lparr>file1 = ascii ''b.pdf'', file2 = ascii ''c.pdf''\<rparr>)))
      = [Error (msg_error @ msg_extraction_error @ ascii ''no such file'')]
   \<and> filter is_result (notifications (log (run None example_env
        \<lparr>file1 = ascii ''b.pdf'', file2 = ascii ''c.pdf''\<rparr>))) = []
   \<and> count_list (notifications (log (run None example_env
        \<lparr>file1 = ascii ''b.pdf'', file2 = ascii ''c.pdf''\<rparr>))) Finished = 1"
proof -
  let ?w = "\<lparr>file1 = ascii ''b.pdf'', file2 = ascii ''c.pdf''\<rparr>"
  let ?e = "Exception (msg_extraction_error @ ascii ''no such file'')"
  have ne: "ascii ''c.pdf'' \<noteq> ascii ''a.pdf''" "ascii ''c.pdf'' \<noteq> ascii ''b.pdf''"
    "ascii ''b.pdf'' \<noteq> ascii ''a.pdf''"
    by (simp_all add: ascii_def)
  have bf: "both_fail (open_pdf example_env (ascii ''c.pdf''))"
    by (simp add: both_fail_def example_env_def ne)
  have rb: "fst (run_body None example_env ?w init_state) = Inl ?e"
    by (simp add: run_body_unfold Let_def extract_text_def fallback_def is_running_def
        flag_at_def py_floordiv_def emit_def init_state_def example_env_def ne)
  have st: "fst (extract_text None (open_pdf example_env (ascii ''c.pdf'')) init_state) = Inl ?e"
    by (simp add: extract_text_def fallback_def example_env_def ne)
  note t = C6_extraction_error[of None "open_pdf example_env (ascii ''c.pdf'')" init_state ?e
      example_env ?w]
  from t st rb bf show ?thesis by simp
qed

theorem C7_finished_once_last_witness:
  "\<exists>pre. notifications (log (run (Some 0) example_env \<lparr>file1 = ascii ''b.pdf'', file2 = ascii ''a.pdf''\<rparr>))
      = pre @ [Finished] \<and> Finished \<notin> set pre"
  by (rule C7_finished_once_last)

section \<open>Properties of the diff\<close>

lemma seg_append:
  "lo \<le> mid \<Longrightarrow> mid \<le> hi \<Longrightarrow> seg xs lo mid @ seg xs mid hi = seg xs lo hi"
proof -
  assume a: "lo \<le> mid" "mid \<le> hi"
  have "drop mid xs = drop (mid - lo) (drop lo xs)" using a by simp
  moreover have "hi - lo = (mid - lo) + (hi - mid)" using a by simp
  ultimately show ?thesis by (simp add: seg_def take_add)
qed

lemma seg_empty [simp]: "seg xs lo lo = []"
  by (simp add: seg_def)

lemma seg_single: "i < length xs \<Longrightarrow> seg xs i (Suc i) = [xs ! i]"
  by (simp add: seg_def take_Suc_conv_app_nth Cons_nth_drop_Suc[symmetric])

lemma seg_all: "seg xs 0 (length xs) = xs"
  by (simp add: seg_def)

lemma seg_nth: "hi \<le> length xs \<Longrightarrow> map (\<lambda>i. xs ! i) [lo..<hi] = seg xs lo hi"
proof (induction "hi - lo" arbitrary: lo)
  case 0
  then show ?case by (simp add: seg_def)
next
  case (Suc n)
  then have lt: "lo < hi" by simp
  then have "map (\<lambda>i. xs ! i) [lo..<hi] = xs ! lo # map (\<lambda>i. xs ! i) [Suc lo..<hi]"
    by (simp add: upt_conv_Cons)
  also have "map (\<lambda>i. xs ! i) [Suc lo..<hi] = seg xs (Suc lo) hi"
    using Suc by simp
  also have "xs ! lo # seg xs (Suc lo) hi = seg xs lo (Suc lo) @ seg xs (Suc lo) hi"
    using lt Suc.prems by (simp add: seg_single)
  also have "\<dots> = seg xs lo hi" using lt by (simp add: seg_append)
  finally show ?case .
qed

lemma seg_eq_nth:
  assumes "lo1 + n \<le> length xs" "lo2 + n \<le> length ys"
    and "\<forall>t<n. xs ! (lo1 + t) = ys ! (lo2 + t)"
  shows "seg xs lo1 (lo1 + n) = seg ys lo2 (lo2 + n)"
  using assms by (auto simp: seg_def list_eq_iff_nth_eq)

lemma kind_of_marked [simp]:
  "kind_of (45 # 32 # l) = Removed" "kind_of (43 # 32 # l) = Added"
  "kind_of (32 # 32 # l) = Unchanged" "kind_of (63 # 32 # l) = IntralineHint"
  by (simp_all add: kind_of_def startswith_def ascii_def)

lemma payload_marked [simp]: "payload (c # d # l) = l"
  by (simp add: payload_def)

lemma sides_append [simp]:
  "a_side (xs @ ys) = a_side xs @ a_side ys" "b_side (xs @ ys) = b_side xs @ b_side ys"
  by (simp_all add: a_side_def b_side_def)

lemma sides_Nil [simp]: "a_side [] = []" "b_side [] = []"
  by (simp_all add: a_side_def b_side_def)

lemma sides_dump:
  assumes "hi \<le> length x"
  shows "a_side (dump 45 x lo hi) = seg x lo hi" "b_side (dump 45 x lo hi) = []"
    "a_side (dump 43 x lo hi) = []" "b_side (dump 43 x lo hi) = seg x lo hi"
    "a_side (dump 32 x lo hi) = seg x lo hi" "b_side (dump 32 x lo hi) = seg x lo hi"
  using seg_nth[OF assms, of lo]
  by (simp_all add: a_side_def b_side_def dump_def filter_map comp_def)

lemma sides_qformat:
  "a_side (qformat aline bline atags btags) = [aline]"
  "b_side (qformat aline bline atags btags) = [bline]"
  by (simp_all add: a_side_def b_side_def qformat_def Let_def)

lemma search_i_eq_ok:
  "eq_ok a b s \<Longrightarrow> eq_ok a b (search_i a (b ! j) j is s)"
proof (induction "is" arbitrary: s)
  case Nil
  then show ?case by simp
next
  case (Cons i "is")
  obtain best_ratio best eq where s: "s = (best_ratio, best, eq)" by (cases s) auto
  have 1: "a ! i = b ! j \<Longrightarrow> eq_ok a b (best_ratio, best, (if eq = None then Some (i, j) else eq))"
    using Cons.prems by (auto simp: s eq_ok_def)
  have 2: "eq_ok a b (r, p, eq)" for r p
    using Cons.prems by (auto simp: s eq_ok_def)
  show ?case
    unfolding s using Cons.IH[OF 1] Cons.IH[OF 2]
    by (simp add: Let_def)
qed

lemma search_j_eq_ok:
  "eq_ok a b s \<Longrightarrow> eq_ok a b (search_j a alo ahi b js s)"
proof (induction js arbitrary: s)
  case Nil
  then show ?case by simp
next
  case (Cons j js)
  then show ?case using search_i_eq_ok by simp
qed

lemma search_eq:
  assumes "search_j a alo ahi b [blo..<bhi] (74 / 100, None, None) = (best_ratio, best, Some (i, j))"
  shows "a ! i = b ! j"
proof -
  have "eq_ok a b (search_j a alo ahi b [blo..<bhi] (74 / 100, None, None))"
    by (rule search_j_eq_ok) (simp add: eq_ok_def)
  then show ?thesis unfolding assms by (simp add: eq_ok_def)
qed

lemma sides_sync:
  assumes "alo \<le> i" "i < ahi" "ahi \<le> length a" "blo \<le> j" "j < bhi" "bhi \<le> length b"
    and "sides_ok a alo i b blo j front"
    and "sides_ok a (i + 1) ahi b (j + 1) bhi back"
    and "a_side mid = [a ! i]" "b_side mid = [b ! j]"
  shows "a_side (front @ mid @ back) = seg a alo ahi
       \<and> b_side (front @ mid @ back) = seg b blo bhi"
proof -
  have b: "a_side front = seg a alo i" "b_side front = seg b blo j"
    using assms by (auto simp: sides_ok_def)
  have af: "a_side back = seg a (Suc i) ahi" "b_side back = seg b (Suc j) bhi"
    using assms by (auto simp: sides_ok_def)
  have "seg a alo i @ seg a i (Suc i) @ seg a (Suc i) ahi = seg a alo ahi"
    using assms by (simp add: seg_append)
  moreover have "seg b blo j @ seg b j (Suc j) @ seg b (Suc j) bhi = seg b blo bhi"
    using assms by (simp add: seg_append)
  moreover have "seg a i (Suc i) = [a ! i]" "seg b j (Suc j) = [b ! j]"
    using assms by (simp_all add: seg_single)
  ultimately show ?thesis using b af assms(9,10) by simp
qed

lemma fancy_sides:
  "sides_ok a alo ahi b blo bhi (fancy_replace a alo ahi b blo bhi)"
  "sides_ok a alo ahi b blo bhi (fancy_helper a alo ahi b blo bhi)"
proof (induction a alo ahi b blo bhi and a alo ahi b blo bhi rule: fancy_replace_fancy_helper.induct)
  case (1 a alo ahi b blo bhi)
  obtain best_ratio best eq where
    s: "search_j a alo ahi b [blo..<bhi] (74 / 100, None, None) = (best_ratio, best, eq)"
    by (cases "search_j a alo ahi b [blo..<bhi] (74 / 100, None, None)") auto
  note sr = search_result[OF s]
  show ?case
    unfolding sides_ok_def
  proof (intro impI)
    assume bd: "alo \<le> ahi \<and> ahi \<le> length a \<and> blo \<le> bhi \<and> bhi \<le> length b"
    show "a_side (fancy_replace a alo ahi b blo bhi) = seg a alo ahi
        \<and> b_side (fancy_replace a alo ahi b blo bhi) = seg b blo bhi"
    proof (cases "best_ratio < 75 / 100")
      case True
      show ?thesis
      proof (cases eq)
        case None
        have fr: "fancy_replace a alo ahi b blo bhi = plain_replace a alo ahi b blo bhi"
          by (subst fancy_replace.simps, unfold s) (simp only: prod.case True if_True None option.case)
        show ?thesis
          unfolding fr plain_replace_def using bd by (simp add: sides_dump)
      next
        case (Some p)
        obtain i j where p: "p = (i, j)" by (cases p) auto
        have fr: "fancy_replace a alo ahi b blo bhi =
            fancy_helper a alo i b blo j @ [[32, 32] @ a ! i]
            @ fancy_helper a (i + 1) ahi b (j + 1) bhi"
          by (subst fancy_replace.simps, unfold s) (simp only: prod.case True if_True Some p option.case)
        have ib: "alo \<le> i" "i < ahi" "blo \<le> j" "j < bhi"
          using sr(2) by (auto simp: in_block_def Some p)
        have e: "a ! i = b ! j" using search_eq[OF s[unfolded Some p]] .
        have h1: "sides_ok a alo i b blo j (fancy_helper a alo i b blo j)"
          by (rule "1.IH"(1)[OF s[symmetric] refl True Some p[symmetric]])
        have h2: "sides_ok a (i + 1) ahi b (j + 1) bhi (fancy_helper a (i + 1) ahi b (j + 1) bhi)"
          by (rule "1.IH"(2)[OF s[symmetric] refl True Some p[symmetric]])
        have m: "a_side [[32, 32] @ a ! i] = [a ! i]" "b_side [[32, 32] @ a ! i] = [b ! j]"
          using e by (simp_all add: a_side_def b_side_def)
        show ?thesis unfolding fr
          using sides_sync[OF ib(1,2) _ ib(3,4) _ h1 h2 m] bd by blast
      qed
    next
      case False
      then have "best \<noteq> None" using sr(3) by blast
      then obtain p where Some: "best = Some p" by auto
      obtain i j where p: "p = (i, j)" by (cases p) auto
      let ?mid = "(let aelt = a ! i; belt = b ! j;
                        (atags, btags) = tags_loop (get_opcodes aelt belt) ([], [])
                    in qformat aelt belt atags btags)"
      have fr: "fancy_replace a alo ahi b blo bhi =
          fancy_helper a alo i b blo j @ ?mid @ fancy_helper a (i + 1) ahi b (j + 1) bhi"
        by (subst fancy_replace.simps, unfold s) (simp only: prod.case False if_False Some p option.case)
      have ib: "alo \<le> i" "i < ahi" "blo \<le> j" "j < bhi"
        using sr(1) by (auto simp: in_block_def Some p)
      have h1: "sides_ok a alo i b blo j (fancy_helper a alo i b blo j)"
        by (rule "1.IH"(3)[OF s[symmetric] refl False Some p[symmetric]])
      have h2: "sides_ok a (i + 1) ahi b (j + 1) bhi (fancy_helper a (i + 1) ahi b (j + 1) bhi)"
        by (rule "1.IH"(4)[OF s[symmetric] refl False Some p[symmetric]])
      have m: "a_side ?mid = [a ! i]" "b_side ?mid = [b ! j]"
        by (simp_all add: Let_def case_prod_beta sides_qformat)
      show ?thesis unfolding fr
        using sides_sync[OF ib(1,2) _ ib(3,4) _ h1 h2 m] bd by blast
    qed
  qed
next
  case (2 a alo ahi b blo bhi)
  show ?case
    unfolding sides_ok_def
  proof (intro impI)
    assume bd: "alo \<le> ahi \<and> ahi \<le> length a \<and> blo \<le> bhi \<and> bhi \<le> length b"
    show "a_side (fancy_helper a alo ahi b blo bhi) = seg a alo ahi
        \<and> b_side (fancy_helper a alo ahi b blo bhi) = seg b blo bhi"
    proof (cases "alo < ahi")
      case True
      show ?thesis
      proof (cases "blo < bhi")
        case b: True
        have "fancy_helper a alo ahi b blo bhi = fancy_replace a alo ahi b blo bhi"
          by (subst fancy_helper.simps) (simp add: True b)
        then show ?thesis using "2.IH"[OF True b] bd by (simp add: sides_ok_def)
      next
        case b: False
        then have e: "bhi = blo" using bd by simp
        have "fancy_helper a alo ahi b blo bhi = dump 45 a alo ahi"
          by (subst fancy_helper.simps) (simp add: True b)
        then show ?thesis using bd by (simp add: sides_dump e)
      qed
    next
      case False
      then have e: "ahi = alo" using bd by simp
      show ?thesis
      proof (cases "blo < bhi")
        case b: True
        have "fancy_helper a alo ahi b blo bhi = dump 43 b blo bhi"
          by (subst fancy_helper.simps) (simp add: False b)
        then show ?thesis using bd by (simp add: sides_dump e)
      next
        case b: False
        then have e2: "bhi = blo" using bd by simp
        have "fancy_helper a alo ahi b blo bhi = []"
          by (subst fancy_helper.simps) (simp add: False b)
        then show ?thesis by (simp add: e e2)
      qed
    qed
  qed
qed

lemma mb_step:
  assumes inv: "mb_inv a b ((alo, ahi, blo, bhi) # queue) blocks"
    and f: "find_longest_match a b alo ahi blo bhi = (i, j, k)"
    and k: "k \<noteq> 0"
  shows "mb_inv a b
           ((if i + k < ahi \<and> j + k < bhi then [(i + k, ahi, j + k, bhi)] else [])
            @ (if alo < i \<and> blo < j then [(alo, i, blo, j)] else []) @ queue)
           (blocks @ [(i, j, k)])"
proof -
  note bd = find_longest_match_bounds[OF f]
  have b1: "alo \<le> i" "blo \<le> j" "i + k \<le> ahi" "j + k \<le> bhi"
    using bd(1,2) bd(3,4)[OF k] by auto
  have r: "ahi \<le> length a" "bhi \<le> length b"
    using inv by (auto simp: mb_inv_def rect_ok_def)
  have cs: "chain_set a b blocks" using inv by (simp add: mb_inv_def)
  have q: "\<forall>r\<in>set queue. rect_ok a b r" "\<forall>r\<in>set queue. \<forall>x\<in>set blocks. sep r x"
    "sorted_wrt rsep queue" "\<forall>r\<in>set queue. rsep (alo, ahi, blo, bhi) r"
    "\<forall>x\<in>set blocks. sep (alo, ahi, blo, bhi) x"
    using inv by (auto simp: mb_inv_def)
  let ?x = "(i, j, k)"
  let ?L = "(alo, i, blo, j)"
  let ?R = "(i + k, ahi, j + k, bhi)"
  have x: "blk a b ?x"
    using b1 r k bd(5) by (auto simp: blk_def)
  have old: "(before ?x y \<or> before y ?x) \<and> y \<noteq> ?x" if "y \<in> set blocks" for y
  proof -
    obtain i2 j2 k2 where y: "y = (i2, j2, k2)" by (cases y) auto
    have "sep (alo, ahi, blo, bhi) y" using q(5) that by blast
    then show ?thesis using b1 k by (auto simp: y sep_def before_def)
  qed
  have cs': "chain_set a b (blocks @ [?x])"
    using cs x old unfolding chain_set_def by auto
  have rk: "rect_ok a b ?L" "rect_ok a b ?R"
    using b1 r by (auto simp: rect_ok_def)
  have sx: "sep ?L ?x" "sep ?R ?x"
    by (auto simp: sep_def)
  have sy: "sep ?L y \<and> sep ?R y" if "y \<in> set blocks" for y
  proof -
    obtain i2 j2 k2 where y: "y = (i2, j2, k2)" by (cases y) auto
    have "sep (alo, ahi, blo, bhi) y" using q(5) that by blast
    then show ?thesis using b1 by (auto simp: y sep_def)
  qed
  have rr: "rsep ?R ?L" by (auto simp: rsep_def)
  have rq: "rsep ?L r' \<and> rsep ?R r'" if "r' \<in> set queue" for r'
  proof -
    obtain alo2 ahi2 blo2 bhi2 where r': "r' = (alo2, ahi2, blo2, bhi2)" by (cases r') auto
    have "rsep (alo, ahi, blo, bhi) r'" using q(4) that by blast
    then show ?thesis using b1 by (auto simp: r' rsep_def)
  qed
  have sq: "sep r' ?x" if "r' \<in> set queue" for r'
  proof -
    obtain alo2 ahi2 blo2 bhi2 where r': "r' = (alo2, ahi2, blo2, bhi2)" by (cases r') auto
    have "rsep (alo, ahi, blo, bhi) r'" using q(4) that by blast
    then show ?thesis using b1 by (auto simp: r' rsep_def sep_def)
  qed
  show ?thesis
    unfolding mb_inv_def
  proof (intro conjI)
    show "chain_set a b (blocks @ [?x])" by (rule cs')
    show "\<forall>r\<in>set ((if i + k < ahi \<and> j + k < bhi then [?R] else [])
            @ (if alo < i \<and> blo < j then [?L] else []) @ queue). rect_ok a b r"
      using rk q(1) by auto
    show "\<forall>r\<in>set ((if i + k < ahi \<and> j + k < bhi then [?R] else [])
            @ (if alo < i \<and> blo < j then [?L] else []) @ queue).
            \<forall>x\<in>set (blocks @ [?x]). sep r x"
      using sx sy sq q(2) by auto
    show "sorted_wrt rsep ((if i + k < ahi \<and> j + k < bhi then [?R] else [])
            @ (if alo < i \<and> blo < j then [?L] else []) @ queue)"
      using rr rq q(3) by (auto simp: sorted_wrt_append)
  qed
qed

lemma mb_inv_tl: "mb_inv a b (r # queue) blocks \<Longrightarrow> mb_inv a b queue blocks"
  by (auto simp: mb_inv_def)

lemma mb_loop_inv:
  "mb_inv a b queue blocks \<Longrightarrow> chain_set a b (mb_loop a b queue blocks)"
proof (induction a b queue blocks rule: mb_loop.induct)
  case (1 a b matching_blocks)
  then show ?case by (simp add: mb_loop.simps mb_inv_def)
next
  case (2 a b alo ahi blo bhi queue matching_blocks)
  obtain i j k where f: "find_longest_match a b alo ahi blo bhi = (i, j, k)"
    by (cases "find_longest_match a b alo ahi blo bhi") auto
  show ?case
  proof (cases "k = 0")
    case True
    have "mb_loop a b ((alo, ahi, blo, bhi) # queue) matching_blocks
        = mb_loop a b queue matching_blocks"
      by (subst mb_loop.simps) (simp add: f True)
    then show ?thesis
      using "2.IH"(2)[OF f[symmetric] refl] True mb_inv_tl[OF "2.prems"] by simp
  next
    case False
    let ?q1 = "(if alo < i \<and> blo < j then (alo, i, blo, j) # queue else queue)"
    let ?q2 = "(if i + k < ahi \<and> j + k < bhi then (i + k, ahi, j + k, bhi) # ?q1 else ?q1)"
    have eq: "mb_loop a b ((alo, ahi, blo, bhi) # queue) matching_blocks
        = mb_loop a b ?q2 (matching_blocks @ [(i, j, k)])"
      by (subst mb_loop.simps) (simp add: f False Let_def)
    have q2: "?q2 = (if i + k < ahi \<and> j + k < bhi then [(i + k, ahi, j + k, bhi)] else [])
            @ (if alo < i \<and> blo < j then [(alo, i, blo, j)] else []) @ queue"
      by simp
    have "mb_inv a b ?q2 (matching_blocks @ [(i, j, k)])"
      unfolding q2 by (rule mb_step[OF "2.prems" f False])
    from "2.IH"(1)[OF f[symmetric] refl False refl refl this]
    show ?thesis unfolding eq .
  qed
qed

lemma raw_blocks_chain:
  "chain_set a b (mb_loop a b [(0, length a, 0, length b)] [])"
  by (rule mb_loop_inv) (simp add: mb_inv_def chain_set_def rect_ok_def)

lemma sort_chain:
  assumes "chain_set a b xs"
  shows "sorted_wrt before (sort xs)" and "\<forall>x\<in>set (sort xs). blk a b x"
proof -
  have s: "sorted_wrt (<) (sort xs)"
    using assms by (simp add: strict_sorted_iff chain_set_def)
  have "before x y" if "x \<in> set (sort xs)" "y \<in> set (sort xs)" "x < y" for x y
  proof -
    obtain i1 j1 k1 where x: "x = (i1, j1, k1)" by (cases x) auto
    obtain i2 j2 k2 where y: "y = (i2, j2, k2)" by (cases y) auto
    have "i1 \<le> i2" using that(3) by (auto simp: x y less_prod_def)
    moreover have "0 < k2" using assms that(2) by (auto simp: chain_set_def blk_def y)
    moreover have "before x y \<or> before y x"
      using assms that by (auto simp: chain_set_def)
    ultimately show ?thesis by (auto simp: before_def x y)
  qed
  then show "sorted_wrt before (sort xs)"
    using s sorted_wrt_mono_rel[of "sort xs" "(<)" before] by blast
  show "\<forall>x\<in>set (sort xs). blk a b x" using assms by (simp add: chain_set_def)
qed

lemma endpos_append: "endpos i j (ms @ [(la, lb, 0)]) = (la, lb)"
  by (induction ms arbitrary: i j) auto

lemma collapse_acc: "collapse rest cur acc = acc @ collapse rest cur []"
proof (induction rest arbitrary: cur acc)
  case Nil
  then show ?case by (cases cur) auto
next
  case (Cons x rest)
  obtain i1 j1 k1 where c: "cur = (i1, j1, k1)" by (cases cur) auto
  obtain i2 j2 k2 where x: "x = (i2, j2, k2)" by (cases x) auto
  show ?case
  proof (cases "i1 + k1 = i2 \<and> j1 + k1 = j2")
    case True
    then show ?thesis using Cons.IH[of "(i1, j1, k1 + k2)" acc] by (simp add: c x)
  next
    case False
    then have e: "collapse (x # rest) cur acc
          = collapse rest (i2, j2, k2) (if k1 \<noteq> 0 then acc @ [(i1, j1, k1)] else acc)"
      "collapse (x # rest) cur []
          = collapse rest (i2, j2, k2) (if k1 \<noteq> 0 then [(i1, j1, k1)] else [])"
      unfolding c x by (simp_all only: collapse.simps if_False append_Nil)
    show ?thesis
    proof (cases "k1 = 0")
      case True
      then show ?thesis unfolding e using Cons.IH[of "(i2, j2, k2)" acc] by simp
    next
      case k: False
      have "collapse rest (i2, j2, k2) (acc @ [(i1, j1, k1)])
          = (acc @ [(i1, j1, k1)]) @ collapse rest (i2, j2, k2) []"
        by (rule Cons.IH)
      moreover have "collapse rest (i2, j2, k2) [(i1, j1, k1)]
          = [(i1, j1, k1)] @ collapse rest (i2, j2, k2) []"
        by (rule Cons.IH)
      ultimately show ?thesis unfolding e using k by simp
    qed
  qed
qed

lemma collapse_chain:
  assumes "sorted_wrt before rest" and "\<forall>x\<in>set rest. blk a b x"
    and "\<forall>x\<in>set rest. before (i1, j1, k1) x"
    and "i1 + k1 \<le> length a" and "j1 + k1 \<le> length b"
    and "\<forall>t<k1. a ! (i1 + t) = b ! (j1 + t)"
    and "i \<le> i1" and "j \<le> j1"
  shows "mchain a b i j (collapse rest (i1, j1, k1) [] @ [(length a, length b, 0)])"
  using assms
proof (induction rest arbitrary: i j i1 j1 k1)
  case Nil
  then show ?case by auto
next
  case (Cons x rest)
  obtain i2 j2 k2 where x: "x = (i2, j2, k2)" by (cases x) auto
  have bx: "0 < k2" "i2 + k2 \<le> length a" "j2 + k2 \<le> length b"
    "\<forall>t<k2. a ! (i2 + t) = b ! (j2 + t)"
    using Cons.prems(2) by (auto simp: x blk_def)
  have s: "sorted_wrt before rest" "\<forall>y\<in>set rest. blk a b y"
    "\<forall>y\<in>set rest. before (i2, j2, k2) y"
    using Cons.prems(1,2) by (auto simp: x)
  have le: "i1 + k1 \<le> i2" "j1 + k1 \<le> j2"
    using Cons.prems(3) by (auto simp: x before_def)
  show ?case
  proof (cases "i1 + k1 = i2 \<and> j1 + k1 = j2")
    case True
    have m: "\<forall>t<k1 + k2. a ! (i1 + t) = b ! (j1 + t)"
    proof (intro allI impI)
      fix t assume t: "t < k1 + k2"
      show "a ! (i1 + t) = b ! (j1 + t)"
      proof (cases "t < k1")
        case True
        then show ?thesis using Cons.prems(6) by simp
      next
        case False
        then have "t - k1 < k2" using t by simp
        then have "a ! (i2 + (t - k1)) = b ! (j2 + (t - k1))" using bx(4) by blast
        moreover have "i2 + (t - k1) = i1 + t" "j2 + (t - k1) = j1 + t"
          using True False by auto
        ultimately show ?thesis by simp
      qed
    qed
    have bf: "\<forall>y\<in>set rest. before (i1, j1, k1 + k2) y"
      using s(3) True by (auto simp: before_def)
    have "mchain a b i j (collapse rest (i1, j1, k1 + k2) [] @ [(length a, length b, 0)])"
      by (rule Cons.IH[OF s(1) s(2) bf _ _ m Cons.prems(7,8)]) (use True bx in auto)
    then show ?thesis using True by (simp add: x)
  next
    case False
    show ?thesis
    proof (cases "k1 = 0")
      case True
      have "mchain a b i j (collapse rest (i2, j2, k2) [] @ [(length a, length b, 0)])"
        by (rule Cons.IH[OF s(1) s(2) s(3) bx(2) bx(3) bx(4)])
           (use le Cons.prems(7,8) in auto)
      then show ?thesis using False True by (simp add: x)
    next
      case k: False
      have "mchain a b (i1 + k1) (j1 + k1)
              (collapse rest (i2, j2, k2) [] @ [(length a, length b, 0)])"
        by (rule Cons.IH[OF s(1) s(2) s(3) bx(2) bx(3) bx(4) le])
      moreover have "collapse (x # rest) (i1, j1, k1) []
          = (i1, j1, k1) # collapse rest (i2, j2, k2) []"
        using False k collapse_acc[of rest "(i2, j2, k2)" "[(i1, j1, k1)]"]
        by (auto simp: x)
      ultimately show ?thesis using Cons.prems(4,5,6,7,8) by simp
    qed
  qed
qed

lemma matching_blocks_chain:
  "mchain a b 0 0 (get_matching_blocks a b)"
proof -
  let ?xs = "sort (mb_loop a b [(0, length a, 0, length b)] [])"
  note sc = sort_chain[OF raw_blocks_chain[of a b]]
  have "mchain a b 0 0 (collapse ?xs (0, 0, 0) [] @ [(length a, length b, 0)])"
    by (rule collapse_chain[OF sc(1) sc(2)]) (auto simp: before_def)
  then show ?thesis by (simp add: get_matching_blocks_def Let_def)
qed

lemma matching_blocks_end:
  "endpos 0 0 (get_matching_blocks a b) = (length a, length b)"
  by (simp add: get_matching_blocks_def Let_def endpos_append)

lemma opcodes_acc: "opcodes_loop ms i j answer = answer @ opcodes_loop ms i j []"
proof (induction ms arbitrary: i j answer)
  case Nil
  then show ?case by simp
next
  case (Cons m ms)
  obtain ai bj sz where m: "m = (ai, bj, sz)" by (cases m) auto
  let ?g = "(if i < ai \<and> j < bj then [(Replace, i, ai, j, bj)]
             else if i < ai then [(Delete, i, ai, j, bj)]
             else if j < bj then [(Insert, i, ai, j, bj)] else [])"
  let ?e = "(if sz \<noteq> 0 then [(Equal, ai, ai + sz, bj, bj + sz)] else [])"
  have "opcodes_loop (m # ms) i j answer
      = opcodes_loop ms (ai + sz) (bj + sz) (answer @ ?g @ ?e)"
    by (simp add: m Let_def)
  also have "\<dots> = (answer @ ?g @ ?e) @ opcodes_loop ms (ai + sz) (bj + sz) []"
    by (rule Cons.IH)
  also have "\<dots> = answer @ opcodes_loop ms (ai + sz) (bj + sz) (?g @ ?e)"
    using Cons.IH[of "ai + sz" "bj + sz" "?g @ ?e"] by simp
  also have "opcodes_loop ms (ai + sz) (bj + sz) (?g @ ?e) = opcodes_loop (m # ms) i j []"
    by (simp add: m Let_def)
  finally show ?case .
qed

lemma opcodes_step:
  "opcodes_loop ((ai, bj, sz) # ms) i j [] =
     (if i < ai \<and> j < bj then [(Replace, i, ai, j, bj)]
      else if i < ai then [(Delete, i, ai, j, bj)]
      else if j < bj then [(Insert, i, ai, j, bj)] else [])
     @ (if sz \<noteq> 0 then [(Equal, ai, ai + sz, bj, bj + sz)] else [])
     @ opcodes_loop ms (ai + sz) (bj + sz) []"
proof -
  let ?g = "(if i < ai \<and> j < bj then [(Replace, i, ai, j, bj)]
             else if i < ai then [(Delete, i, ai, j, bj)]
             else if j < bj then [(Insert, i, ai, j, bj)] else [])"
  let ?e = "(if sz \<noteq> 0 then [(Equal, ai, ai + sz, bj, bj + sz)] else [])"
  have "opcodes_loop ((ai, bj, sz) # ms) i j []
      = opcodes_loop ms (ai + sz) (bj + sz) (?g @ ?e)"
    by (simp add: Let_def)
  also have "\<dots> = (?g @ ?e) @ opcodes_loop ms (ai + sz) (bj + sz) []"
    by (rule opcodes_acc)
  finally show ?thesis by simp
qed

lemma gap_sides:
  assumes "i \<le> ai" "ai \<le> length a" "j \<le> bj" "bj \<le> length b"
  shows "a_side (concat (map (compare_op a b)
            (if i < ai \<and> j < bj then [(Replace, i, ai, j, bj)]
             else if i < ai then [(Delete, i, ai, j, bj)]
             else if j < bj then [(Insert, i, ai, j, bj)] else []))) = seg a i ai
       \<and> b_side (concat (map (compare_op a b)
            (if i < ai \<and> j < bj then [(Replace, i, ai, j, bj)]
             else if i < ai then [(Delete, i, ai, j, bj)]
             else if j < bj then [(Insert, i, ai, j, bj)] else []))) = seg b j bj"
proof -
  have f: "a_side (fancy_replace a i ai b j bj) = seg a i ai"
    "b_side (fancy_replace a i ai b j bj) = seg b j bj"
    using fancy_sides(1)[of a i ai b j bj] assms by (auto simp: sides_ok_def)
  show ?thesis
    using assms f sides_dump[OF assms(2), of i] sides_dump[OF assms(4), of j]
    by auto
qed

lemma equal_sides:
  assumes "ai + sz \<le> length a" "bj + sz \<le> length b" "\<forall>t<sz. a ! (ai + t) = b ! (bj + t)"
  shows "a_side (concat (map (compare_op a b)
            (if sz \<noteq> 0 then [(Equal, ai, ai + sz, bj, bj + sz)] else []))) = seg a ai (ai + sz)
       \<and> b_side (concat (map (compare_op a b)
            (if sz \<noteq> 0 then [(Equal, ai, ai + sz, bj, bj + sz)] else []))) = seg b bj (bj + sz)"
  using sides_dump(5,6)[OF assms(1), of ai] seg_eq_nth[OF assms] by auto

lemma opcodes_sides:
  assumes "mchain a b i j ms" and "i \<le> length a" and "j \<le> length b"
  shows "a_side (concat (map (compare_op a b) (opcodes_loop ms i j [])))
           = seg a i (fst (endpos i j ms))
       \<and> b_side (concat (map (compare_op a b) (opcodes_loop ms i j [])))
           = seg b j (snd (endpos i j ms))
       \<and> i \<le> fst (endpos i j ms) \<and> j \<le> snd (endpos i j ms)"
  using assms
proof (induction ms arbitrary: i j)
  case Nil
  then show ?case by simp
next
  case (Cons m ms)
  obtain ai bj sz where m: "m = (ai, bj, sz)" by (cases m) auto
  have c: "i \<le> ai" "j \<le> bj" "ai + sz \<le> length a" "bj + sz \<le> length b"
    "\<forall>t<sz. a ! (ai + t) = b ! (bj + t)" "mchain a b (ai + sz) (bj + sz) ms"
    using Cons.prems(1) by (auto simp: m)
  note ih = Cons.IH[OF c(6) c(3) c(4)]
  have g: "ai \<le> length a" "bj \<le> length b" using c by auto
  note gs = gap_sides[OF c(1) g(1) c(2) g(2)]
  note es = equal_sides[OF c(3) c(4) c(5)]
  have e: "endpos i j (m # ms) = endpos (ai + sz) (bj + sz) ms" by (simp add: m)
  have sa: "seg a i ai @ seg a ai (ai + sz) @ seg a (ai + sz) (fst (endpos (ai + sz) (bj + sz) ms))
      = seg a i (fst (endpos (ai + sz) (bj + sz) ms))"
    using c(1) ih by (simp add: seg_append)
  have sb: "seg b j bj @ seg b bj (bj + sz) @ seg b (bj + sz) (snd (endpos (ai + sz) (bj + sz) ms))
      = seg b j (snd (endpos (ai + sz) (bj + sz) ms))"
    using c(2) ih by (simp add: seg_append)
  show ?case
    unfolding e m opcodes_step map_append concat_append sides_append
    using gs es ih sa sb c(1,2) by simp
qed

lemma compare_sides: "a_side (compare a b) = a" "b_side (compare a b) = b"
  using opcodes_sides[OF matching_blocks_chain[of a b]]
  by (simp_all add: compare_def get_opcodes_def matching_blocks_end seg_all)

lemma side_lengths:
  "length (a_side out) = count_kind Removed out + count_kind Unchanged out"
  "length (b_side out) = count_kind Added out + count_kind Unchanged out"
  by (induction out) (auto simp: a_side_def b_side_def count_kind_def)

text \<open>
  Claim C5.  For every pair of line sequences \<open>a\<close> and \<open>b\<close>, keeping of the lines of
  \<^verbatim>\<open>Differ().compare(a, b)\<close>, in the order they are produced, those that the formatting
  loop classifies as unchanged or removed, and dropping their two-character marker,
  gives back exactly \<open>a\<close>; keeping the unchanged and the added ones gives back exactly
  \<open>b\<close>.
\<close>

theorem C5_reconstruction:
  "map payload (filter (\<lambda>line. kind_of line = Unchanged \<or> kind_of line = Removed)
      (compare a b)) = a
   \<and> map payload (filter (\<lambda>line. kind_of line = Unchanged \<or> kind_of line = Added)
      (compare a b)) = b"
  using compare_sides[of a b] by (simp add: a_side_def b_side_def)

theorem C5_reconstruction_witness:
  "map payload (filter (\<lambda>line. kind_of line = Unchanged \<or> kind_of line = Removed)
      (compare [ascii ''one'', ascii ''two'', ascii ''three'']
               [ascii ''one'', ascii ''tree'', ascii ''four'']))
     = [ascii ''one'', ascii ''two'', ascii ''three'']
   \<and> map payload (filter (\<lambda>line. kind_of line = Unchanged \<or> kind_of line = Added)
      (compare [ascii ''one'', ascii ''two'', ascii ''three'']
               [ascii ''one'', ascii ''tree'', ascii ''four'']))
     = [ascii ''one'', ascii ''tree'', ascii ''four'']"
  using C5_reconstruction[of "[ascii ''one'', ascii ''two'', ascii ''three'']"
      "[ascii ''one'', ascii ''tree'', ascii ''four'']"]
  by simp

text \<open>
  Claim C8, as the code has it.  For every pair of line sequences \<open>a\<close> and \<open>b\<close>, the
  added and the unchanged lines of the diff of \<open>a\<close> and \<open>b\<close> are as many as the lines of
  \<open>b\<close>, and its removed and unchanged lines as many as the lines of \<open>a\<close>.  So the net
  change is symmetric under swapping the inputs: added minus removed of the diff of
  \<open>a\<close> and \<open>b\<close> is removed minus added of the diff of \<open>b\<close> and \<open>a\<close>.  The added count
  of one diff equals the removed count of the swapped diff exactly when the two diffs
  have the same number of unchanged lines, and so does the removed count of one and the
  added count of the other.
\<close>

theorem C8_counts_under_swap:
  "count_kind Added (compare a b) + count_kind Unchanged (compare a b) = length b
   \<and> count_kind Removed (compare a b) + count_kind Unchanged (compare a b) = length a
   \<and> int (count_kind Added (compare a b)) - int (count_kind Removed (compare a b))
       = int (count_kind Removed (compare b a)) - int (count_kind Added (compare b a))
   \<and> (count_kind Added (compare a b) = count_kind Removed (compare b a)
        \<longleftrightarrow> count_kind Unchanged (compare a b) = count_kind Unchanged (compare b a))
   \<and> (count_kind Removed (compare a b) = count_kind Added (compare b a)
        \<longleftrightarrow> count_kind Unchanged (compare a b) = count_kind Unchanged (compare b a))"
proof -
  have ab: "count_kind Removed (compare a b) + count_kind Unchanged (compare a b) = length a"
    "count_kind Added (compare a b) + count_kind Unchanged (compare a b) = length b"
    using side_lengths[of "compare a b"] compare_sides[of a b] by simp_all
  have ba: "count_kind Removed (compare b a) + count_kind Unchanged (compare b a) = length b"
    "count_kind Added (compare b a) + count_kind Unchanged (compare b a) = length a"
    using side_lengths[of "compare b a"] compare_sides[of b a] by simp_all
  show ?thesis using ab ba by linarith
qed

theorem C8_counts_under_swap_witness:
  "count_kind Added (compare [ascii ''t'', ascii ''i'', ascii ''d'', ascii ''e'']
                             [ascii ''d'', ascii ''i'', ascii ''e'', ascii ''t''])
     + count_kind Unchanged (compare [ascii ''t'', ascii ''i'', ascii ''d'', ascii ''e'']
                                     [ascii ''d'', ascii ''i'', ascii ''e'', ascii ''t'']) = 4
   \<and> count_kind Removed (compare [ascii ''t'', ascii ''i'', ascii ''d'', ascii ''e'']
                               [ascii ''d'', ascii ''i'', ascii ''e'', ascii ''t''])
     + count_kind Unchanged (compare [ascii ''t'', ascii ''i'', ascii ''d'', ascii ''e'']
                                     [ascii ''d'', ascii ''i'', ascii ''e'', ascii ''t'']) = 4"
  using C8_counts_under_swap[of "[ascii ''t'', ascii ''i'', ascii ''d'', ascii ''e'']"
      "[ascii ''d'', ascii ''i'', ascii ''e'', ascii ''t'']"]
  by simp

text \<open>
  The claim as stated fails, since the two diffs need not keep the same lines: from
  \<^verbatim>\<open>t, i, d, e\<close> to \<^verbatim>\<open>d, i, e, t\<close> the matcher keeps only \<^verbatim>\<open>t\<close>, three lines added
  and three removed; from \<^verbatim>\<open>d, i, e, t\<close> to \<^verbatim>\<open>t, i, d, e\<close> it keeps \<^verbatim>\<open>d\<close> and
  \<^verbatim>\<open>e\<close>, two lines added and two removed.
\<close>

theorem C8_counterexample:
  "count_kind Added (compare [ascii ''t'', ascii ''i'', ascii ''d'', ascii ''e'']
                             [ascii ''d'', ascii ''i'', ascii ''e'', ascii ''t'']) = 3
   \<and> count_kind Removed (compare [ascii ''d'', ascii ''i'', ascii ''e'', ascii ''t'']
                                 [ascii ''t'', ascii ''i'', ascii ''d'', ascii ''e'']) = 2
   \<and> count_kind Removed (compare [ascii ''t'', ascii ''i'', ascii ''d'', ascii ''e'']
                                 [ascii ''d'', ascii ''i'', ascii ''e'', ascii ''t'']) = 3
   \<and> count_kind Added (compare [ascii ''d'', ascii ''i'', ascii ''e'', ascii ''t'']
                               [ascii ''t'', ascii ''i'', ascii ''d'', ascii ''e'']) = 2"
proof -
  have e1: "compare [ascii ''t'', ascii ''i'', ascii ''d'', ascii ''e'']
                    [ascii ''d'', ascii ''i'', ascii ''e'', ascii ''t'']
      = [[43,32,100],[43,32,105],[43,32,101],[32,32,116],[45,32,105],[45,32,100],[45,32,101]]"
    by code_simp
  have e2: "compare [ascii ''d'', ascii ''i'', ascii ''e'', ascii ''t'']
                    [ascii ''t'', ascii ''i'', ascii ''d'', ascii ''e'']
      = [[43,32,116],[43,32,105],[32,32,100],[45,32,105],[32,32,101],[45,32,116]]"
    by code_simp
  show ?thesis unfolding e1 e2 by (simp add: count_kind_def)
qed

end
